theory Spec2Isabelle
  imports Complex_Main
begin

chapter \<open>The model\<close>

section \<open>Python values used by the time table code\<close>

text \<open>
  The exceptions the modelled functions can end in. A function that can raise returns
  \<open>py_error + 'a\<close>, with \<open>Inl\<close> for the exception.
\<close>

datatype py_error = ValueError | TypeError | IndexError | UnboundLocalError | RecursionError

text \<open>
  Strings are byte strings here: the model covers ASCII input. \<open>str.strip()\<close> removes the
  characters for which \<open>str.isspace()\<close> holds (tab, LF, VT, FF, CR, FS, GS, RS, US and space),
  \<open>str.upper()\<close> maps \<open>a..z\<close> to \<open>A..Z\<close>, and \<open>needle in hay\<close> is a substring test.
\<close>

definition py_isspace :: "char \<Rightarrow> bool" where
  "py_isspace c = (of_char c \<in> {9, 10, 11, 12, 13, 28, 29, 30, 31, 32 :: nat})"

definition strip :: "string \<Rightarrow> string" where
  "strip s = rev (dropWhile py_isspace (rev (dropWhile py_isspace s)))"

definition upper_char :: "char \<Rightarrow> char" where
  "upper_char c = (if 97 \<le> (of_char c :: nat) \<and> (of_char c :: nat) \<le> 122
                   then char_of ((of_char c :: nat) - 32) else c)"

definition upper :: "string \<Rightarrow> string" where
  "upper s = map upper_char s"

fun is_prefix :: "string \<Rightarrow> string \<Rightarrow> bool" where
  "is_prefix [] ys = True"
| "is_prefix (x # xs) [] = False"
| "is_prefix (x # xs) (y # ys) = (x = y \<and> is_prefix xs ys)"

fun contains :: "string \<Rightarrow> string \<Rightarrow> bool" where
  "contains needle [] = (needle = [])"
| "contains needle (y # ys) = (is_prefix needle (y # ys) \<or> contains needle ys)"

definition is_digit :: "char \<Rightarrow> bool" where
  "is_digit c = (48 \<le> (of_char c :: nat) \<and> (of_char c :: nat) \<le> 57)"

definition dval :: "char \<Rightarrow> nat" where
  "dval c = of_char c - 48"

definition digit_char :: "nat \<Rightarrow> char" where
  "digit_char n = char_of (48 + n)"

section \<open>StationEvent: time strings to minutes\<close>

text \<open>
  \<open>datetime.strptime\<close> turns each directive of the format into a regular expression group
  and matches the whole pattern at the start of the string, alternatives tried in order with
  backtracking: \<open>%H\<close> is \<open>(2[0-3]|[0-1]\d|\d)\<close>, \<open>%M\<close> is \<open>([0-5]\d|\d)\<close> and \<open>%S\<close> is
  \<open>(6[0-1]|[0-5]\d|\d)\<close>. Each group is modelled by the list of its successful matches
  (value, remaining input) in the order the matcher tries them, so that the first element of
  the list for the whole pattern is the match the library finds.
\<close>

definition re_H :: "string \<Rightarrow> (nat \<times> string) list" where
  "re_H s =
     (case s of a # b # r \<Rightarrow>
        (if a = CHR ''2'' \<and> is_digit b \<and> dval b \<le> 3 then [(20 + dval b, r)] else []) @
        (if is_digit a \<and> dval a \<le> 1 \<and> is_digit b then [(10 * dval a + dval b, r)] else [])
      | _ \<Rightarrow> []) @
     (case s of a # r \<Rightarrow> (if is_digit a then [(dval a, r)] else []) | _ \<Rightarrow> [])"

definition re_M :: "string \<Rightarrow> (nat \<times> string) list" where
  "re_M s =
     (case s of a # b # r \<Rightarrow>
        (if is_digit a \<and> dval a \<le> 5 \<and> is_digit b then [(10 * dval a + dval b, r)] else [])
      | _ \<Rightarrow> []) @
     (case s of a # r \<Rightarrow> (if is_digit a then [(dval a, r)] else []) | _ \<Rightarrow> [])"

definition re_S :: "string \<Rightarrow> (nat \<times> string) list" where
  "re_S s =
     (case s of a # b # r \<Rightarrow>
        (if a = CHR ''6'' \<and> is_digit b \<and> dval b \<le> 1 then [(60 + dval b, r)] else []) @
        (if is_digit a \<and> dval a \<le> 5 \<and> is_digit b then [(10 * dval a + dval b, r)] else [])
      | _ \<Rightarrow> []) @
     (case s of a # r \<Rightarrow> (if is_digit a then [(dval a, r)] else []) | _ \<Rightarrow> [])"

definition re_colon :: "string \<Rightarrow> string list" where
  "re_colon s = (case s of c # r \<Rightarrow> (if c = CHR '':'' then [r] else []) | [] \<Rightarrow> [])"

definition re_HMS :: "string \<Rightarrow> (nat \<times> nat \<times> nat \<times> string) list" where
  "re_HMS s = [(h, m, sec, r5). (h, r1) \<leftarrow> re_H s, r2 \<leftarrow> re_colon r1, (m, r3) \<leftarrow> re_M r2,
                                r4 \<leftarrow> re_colon r3, (sec, r5) \<leftarrow> re_S r4]"

definition re_HM :: "string \<Rightarrow> (nat \<times> nat \<times> string) list" where
  "re_HM s = [(h, m, r3). (h, r1) \<leftarrow> re_H s, r2 \<leftarrow> re_colon r1, (m, r3) \<leftarrow> re_M r2]"

text \<open>
  \<open>strptime\<close> raises ValueError when the pattern does not match, when unconverted data
  remains after the match, and (from the \<open>datetime\<close> constructor) when the second is 60 or 61.
  The result keeps the hour, minute and second of the \<open>datetime\<close>.
\<close>

definition strptime_HMS :: "string \<Rightarrow> py_error + (nat \<times> nat \<times> nat)" where
  "strptime_HMS s =
     (case re_HMS s of
        [] \<Rightarrow> Inl ValueError
      | (h, m, sec, r) # _ \<Rightarrow>
          if r \<noteq> [] then Inl ValueError
          else if 59 < sec then Inl ValueError
          else Inr (h, m, sec))"

definition strptime_HM :: "string \<Rightarrow> py_error + (nat \<times> nat \<times> nat)" where
  "strptime_HM s =
     (case re_HM s of
        [] \<Rightarrow> Inl ValueError
      | (h, m, r) # _ \<Rightarrow> if r \<noteq> [] then Inl ValueError else Inr (h, m, 0))"

text \<open>
  \<open>StationEvent._timeToMinutes\<close>. The source computes
  \<open>t.hour * 60 + t.minute + t.second / 60\<close> in binary floating point; the model computes the
  same expression in exact rationals. The two agree whenever the second is a multiple of 15
  (in particular for every \<open>H:MM\<close> string) and differ by a rounding error below \<open>10\<^sup>-\<^sup>9\<close>
  otherwise, which no comparison with an integer bound can see. \<open>None\<close> is Python's None.
\<close>

definition wrap_minutes :: "rat \<Rightarrow> rat" where
  "wrap_minutes minutes = (if minutes < 165 then minutes + 1440 else minutes)"

definition hms_minutes :: "nat \<times> nat \<times> nat \<Rightarrow> rat" where
  "hms_minutes t = (case t of (h, m, sec) \<Rightarrow> of_nat h * 60 + of_nat m + of_nat sec / 60)"

definition timeToMinutes :: "string \<Rightarrow> rat option" where
  "timeToMinutes time_str =
     (if time_str = [] then None
      else case strptime_HMS (strip time_str) of
             Inr t \<Rightarrow> Some (wrap_minutes (hms_minutes t))
           | Inl _ \<Rightarrow>
               (case strptime_HM (strip time_str) of
                  Inr t \<Rightarrow> Some (wrap_minutes (hms_minutes t))
                | Inl _ \<Rightarrow> None))"

text \<open>
  The entities carrying a visibility flag (\<open>render\<close>) share it through a common parent
  record. A \<open>StationEvent\<close> keeps the station name and the converted time; the
  back-reference to the owning service, the platform and the event kind are never read by the
  code modelled here and are left out.
\<close>

record flagged =
  render :: bool

record StationEvent = flagged +
  atStation :: string
  atTime :: "rat option"

definition StationEvent_init :: "string \<Rightarrow> string \<Rightarrow> StationEvent" where
  "StationEvent_init st time_str =
     \<lparr>render = True, atStation = st, atTime = timeToMinutes time_str\<rparr>"

section \<open>FilterQuery\<close>

datatype FilterType = RAKELINK | SERVICE | STATION

text \<open>
  The \<open>ac\<close> field is declared \<open>Optional[bool]\<close> but holds the selector strings
  \<open>"all"\<close>, \<open>"ac"\<close> and \<open>"nonac"\<close>; window bounds are numbers compared with event
  times.
\<close>

record FilterQuery =
  qtype :: "FilterType option"
  startStation :: "string option"
  endStation :: "string option"
  passingThrough :: "string list"
  inTimePeriod :: "(rat \<times> rat) option"
  ac :: "string option"
  inDirection :: "string list option"
  selectedLinks :: "string list"
  selectedServices :: "string list"

definition FilterQuery_default :: FilterQuery where
  "FilterQuery_default =
     \<lparr>qtype = None, startStation = None, endStation = None, passingThrough = [],
      inTimePeriod = Some (165, 1605), ac = None, inDirection = None,
      selectedLinks = [], selectedServices = []\<rparr>"

text \<open>The chained comparison \<open>t_lower <= t <= t_upper\<close>.\<close>

definition in_period :: "rat \<times> rat \<Rightarrow> rat \<Rightarrow> bool" where
  "in_period w t = (fst w \<le> t \<and> t \<le> snd w)"

section \<open>Services, rakes and rake cycles\<close>

text \<open>
  A service id is a Python \<open>int\<close> (a five digit number) or a \<open>str\<close> (an \<open>ETY\<close> code);
  \<open>93001\<close> and \<open>"93001"\<close> are different values and different dictionary keys.
  \<open>py_str\<close> is \<open>str()\<close> on such a value.
\<close>

datatype sid = IntId int | StrId string

fun str_nat :: "nat \<Rightarrow> string" where
  "str_nat n = (if n < 10 then [digit_char n] else str_nat (n div 10) @ [digit_char (n mod 10)])"

declare str_nat.simps [simp del]

definition str_int :: "int \<Rightarrow> string" where
  "str_int i = (if i < 0 then CHR ''-'' # str_nat (nat (- i)) else str_nat (nat i))"

fun py_str :: "sid \<Rightarrow> string" where
  "py_str (IntId i) = str_int i"
| "py_str (StrId s) = s"

text \<open>Truth value of an id in a condition: a nonzero number, a nonempty string.\<close>

fun truthy :: "sid \<Rightarrow> bool" where
  "truthy (IntId i) = (i \<noteq> 0)"
| "truthy (StrId s) = (s \<noteq> [])"

datatype Direction = UP | DOWN

datatype RakeLinkStatus = VALID | INVALID

text \<open>
  The fields of \<open>Service\<close> that the modelled code reads or writes. \<open>rakeSizeReq\<close> and
  \<open>linkedTo\<close> are \<open>None\<close> or a value.
\<close>

record Service = flagged +
  serviceId :: "sid list"
  direction :: "Direction option"
  rakeSizeReq :: "int option"
  needsACRake :: bool
  linkedTo :: "string option"
  events :: "StationEvent list"

record Rake =
  rakeId :: nat
  isAC :: bool
  rakeSize :: int

definition Rake_init :: "nat \<Rightarrow> Rake" where
  "Rake_init i = \<lparr>rakeId = i, isAC = False, rakeSize = 12\<rparr>"

text \<open>
  A rake cycle. The element type of \<open>servicePath\<close> is a parameter: the reconciler never
  mutates a service, so there the path holds the services themselves; the filter engine
  writes visibility flags into service objects shared between the path and the time table,
  so there the path holds addresses into a store.
\<close>

record 'p RakeCycle = flagged +
  rake :: "Rake option"
  status :: RakeLinkStatus
  linkName :: string
  serviceIds :: "sid list"
  undefinedIds :: "(string \<times> sid) list"
  servicePath :: "'p list option"

section \<open>TimeTableParser.extractACRequirement\<close>

definition is_ac_marker :: "string \<Rightarrow> bool" where
  "is_ac_marker cell =
     (contains ''Air'' cell \<or> contains ''Condition'' cell \<or> contains ''AC'' cell)"

text \<open>The loop over the cells of the column, with the counter \<open>isAC\<close> (here \<open>c\<close>) as its state.\<close>

fun extractAC_loop :: "int \<Rightarrow> string list \<Rightarrow> bool" where
  "extractAC_loop c [] = False"
| "extractAC_loop c (cell # rest) =
     (if c = 1 then True
      else if is_ac_marker (strip cell) then extractAC_loop (c + 1) rest
      else extractAC_loop c rest)"

definition extractACRequirement :: "string list \<Rightarrow> bool" where
  "extractACRequirement serviceCol = extractAC_loop (- 1) serviceCol"

section \<open>TimeTable.assignRakes\<close>

text \<open>
  The inner loop over the path: the first service that needs an AC rake or has a truthy
  \<open>rakeSizeReq\<close> sets one attribute of the rake and ends the loop.
\<close>

fun assign_scan :: "Rake \<Rightarrow> Service list \<Rightarrow> Rake" where
  "assign_scan rk [] = rk"
| "assign_scan rk (svc # rest) =
     (if needsACRake svc then rk\<lparr>isAC := True\<rparr>
      else case rakeSizeReq svc of
             Some n \<Rightarrow> (if n \<noteq> 0 then rk\<lparr>rakeSize := n\<rparr> else assign_scan rk rest)
           | None \<Rightarrow> assign_scan rk rest)"

text \<open>
  The outer loop \<open>for i, rc in enumerate(self.rakecycles)\<close>; iterating a \<open>servicePath\<close>
  that is None raises TypeError.
\<close>

fun assignRakes_from :: "nat \<Rightarrow> Service RakeCycle list \<Rightarrow> py_error + Service RakeCycle list" where
  "assignRakes_from i [] = Inr []"
| "assignRakes_from i (rc # rcs) =
     (case servicePath rc of
        None \<Rightarrow> Inl TypeError
      | Some path \<Rightarrow>
          (case assignRakes_from (Suc i) rcs of
             Inl e \<Rightarrow> Inl e
           | Inr rcs' \<Rightarrow> Inr (rc\<lparr>rake := Some (assign_scan (Rake_init i) path)\<rparr> # rcs')))"

definition assignRakes :: "Service RakeCycle list \<Rightarrow> py_error + Service RakeCycle list" where
  "assignRakes rakecycles = assignRakes_from 0 rakecycles"

text \<open>
  \<open>Service.__init__\<close> and \<open>RakeCycle.__init__\<close>: the state of a fresh object. The parser
  then fills in \<open>serviceId\<close> (None at construction, written as the empty list here),
  \<open>rakeSizeReq\<close>, \<open>needsACRake\<close> and \<open>linkedTo\<close>.
\<close>

definition Service_init :: Service where
  "Service_init =
     \<lparr>render = True, serviceId = [], direction = None, rakeSizeReq = None,
      needsACRake = False, linkedTo = None, events = []\<rparr>"

definition RakeCycle_init :: "string \<Rightarrow> 'p RakeCycle" where
  "RakeCycle_init name =
     \<lparr>render = True, rake = None, status = VALID, linkName = name, serviceIds = [],
      undefinedIds = [], servicePath = None\<rparr>"

text \<open>
  The services that end the scan of \<open>assignRakes\<close>: those that need an AC rake or carry a
  truthy car count.
\<close>

definition decides_rake :: "Service \<Rightarrow> bool" where
  "decides_rake svc =
     (needsACRake svc \<or> (rakeSizeReq svc \<noteq> None \<and> rakeSizeReq svc \<noteq> Some 0))"

section \<open>TimeTable.validateRakeCycles\<close>

text \<open>
  The body of the loop for one cycle. The result is \<open>None\<close> when the cycle is left alone
  (the loop falls through or reaches \<open>continue\<close>) and \<open>Some wttPath\<close> when
  \<open>(rc, wttPath)\<close> is appended to \<open>conflictingLinks\<close>. The slices \<open>summaryPath[:-1]\<close> and
  \<open>summaryPath[:-2]\<close> are \<open>butlast\<close> applied once and twice; indexing an empty list with
  \<open>[0]\<close> or \<open>[-1]\<close> raises IndexError and iterating a path that is None raises TypeError.
\<close>

definition validate_cycle :: "Service RakeCycle \<Rightarrow> py_error + sid list option" where
  "validate_cycle rc =
     (case servicePath rc of
        None \<Rightarrow> Inl TypeError
      | Some path \<Rightarrow>
          if \<exists>svc \<in> set path. serviceId svc = [] then Inl IndexError
          else
            let summaryPath = serviceIds rc;
                wttPath = map (\<lambda>svc. hd (serviceId svc)) path;
                summaryPathRed1 = butlast (butlast summaryPath)
            in if wttPath \<noteq> summaryPath then
                 if butlast summaryPath = wttPath then
                   if summaryPath = [] then Inl IndexError
                   else if contains ''ETY'' (py_str (last summaryPath)) then Inr None
                   else Inr (Some wttPath)
                 else if butlast (butlast summaryPath) = wttPath then
                   if summaryPathRed1 = [] then Inl IndexError
                   else if contains ''ETY'' (py_str (last summaryPathRed1))
                           \<and> contains ''ETY'' (py_str (last summaryPath)) then Inr None
                   else Inr (Some wttPath)
                 else Inr (Some wttPath)
               else Inr None)"

text \<open>The first loop, over all cycles in order; an exception ends it.\<close>

fun validate_scan :: "Service RakeCycle list \<Rightarrow> py_error + sid list option list" where
  "validate_scan [] = Inr []"
| "validate_scan (rc # rcs) =
     (case validate_cycle rc of
        Inl e \<Rightarrow> Inl e
      | Inr v \<Rightarrow> (case validate_scan rcs of Inl e \<Rightarrow> Inl e | Inr vs \<Rightarrow> Inr (v # vs)))"

text \<open>
  \<open>validateRakeCycles\<close> on a time table whose \<open>conflictingLinks\<close> is empty, as
  \<open>TimeTable.__init__\<close> leaves it. The result is the pair of the new \<open>rakecycles\<close> and the
  new \<open>conflictingLinks\<close>. The second loop removes each conflicting cycle object from
  \<open>rakecycles\<close>; objects compare by identity, so exactly the cycles at the conflicting
  positions go.
\<close>

definition validateRakeCycles ::
  "Service RakeCycle list \<Rightarrow> py_error + (Service RakeCycle list \<times> (Service RakeCycle \<times> sid list) list)" where
  "validateRakeCycles rakecycles =
     (case validate_scan rakecycles of
        Inl e \<Rightarrow> Inl e
      | Inr vs \<Rightarrow>
          Inr (map fst (filter (\<lambda>(rc, v). v = None) (zip rakecycles vs)),
               concat (map (\<lambda>(rc, v). case v of None \<Rightarrow> [] | Some p \<Rightarrow> [(rc, p)])
                           (zip rakecycles vs))))"

text \<open>A service as the parser leaves it for a single id, and a stub with its declared ids.\<close>

definition service_of :: "sid \<Rightarrow> string option \<Rightarrow> Service" where
  "service_of i l = Service_init\<lparr>serviceId := [i], rakeSizeReq := Some 15, linkedTo := l\<rparr>"

definition stub_of :: "string \<Rightarrow> sid list \<Rightarrow> 'p RakeCycle" where
  "stub_of name ids = (RakeCycle_init name)\<lparr>serviceIds := ids\<rparr>"

section \<open>TimeTable.makeRakeCyclePathsSV\<close>

text \<open>
  A Python \<open>dict\<close> is an association list with distinct keys in insertion order: storing
  under a present key replaces the value in place, storing under a new key appends.
\<close>

fun dict_set :: "('k \<times> 'v) list \<Rightarrow> 'k \<Rightarrow> 'v \<Rightarrow> ('k \<times> 'v) list" where
  "dict_set [] k v = [(k, v)]"
| "dict_set ((k', v') # d) k v =
     (if k' = k then (k, v) # d else (k', v') # dict_set d k v)"

text \<open>\<open>idMap = {sid: s for s in services for sid in s.serviceId}\<close>\<close>

definition make_idMap :: "Service list \<Rightarrow> (sid \<times> Service) list" where
  "make_idMap services =
     foldl (\<lambda>d s. foldl (\<lambda>d' i. dict_set d' i s) d (serviceId s)) [] services"

text \<open>
  \<open>int(str(sv.linkedTo).strip())\<close> with the fallback to the stripped string on ValueError.
  \<open>int()\<close> is modelled on an optional sign followed by decimal digits; the parser only ever
  stores five decimal digits in \<open>linkedTo\<close>. (Python also accepts underscores between
  digits; such a string takes the fallback here.)
\<close>

definition dec_value :: "string \<Rightarrow> nat" where
  "dec_value ds = foldl (\<lambda>a c. 10 * a + dval c) 0 ds"

definition py_int :: "string \<Rightarrow> int option" where
  "py_int t =
     (case t of
        [] \<Rightarrow> None
      | c # ds \<Rightarrow>
          if c = CHR ''-'' \<and> ds \<noteq> [] \<and> list_all is_digit ds then Some (- int (dec_value ds))
          else if c = CHR ''+'' \<and> ds \<noteq> [] \<and> list_all is_digit ds then Some (int (dec_value ds))
          else if list_all is_digit (c # ds) then Some (int (dec_value (c # ds)))
          else None)"

definition parse_linkedTo :: "string \<Rightarrow> sid" where
  "parse_linkedTo l = (case py_int (strip l) of Some i \<Rightarrow> IntId i | None \<Rightarrow> StrId (strip l))"

text \<open>
  The adjacency \<open>adj\<close> is a pair of partial maps, \<open>prev\<close> and \<open>next\<close> (here \<open>nxt\<close>). One
  step of the loop \<open>for sv in idMap.values()\<close>; \<open>sv.serviceId[0]\<close> raises IndexError on a
  service without ids.
\<close>

type_synonym adjacency = "(sid \<rightharpoonup> sid) \<times> (sid \<rightharpoonup> sid)"

definition link_step :: "(sid \<times> Service) list \<Rightarrow> adjacency \<Rightarrow> Service \<Rightarrow> py_error + adjacency" where
  "link_step idMap adj sv =
     (case serviceId sv of
        [] \<Rightarrow> Inl IndexError
      | i # _ \<Rightarrow>
          (case linkedTo sv of
             None \<Rightarrow> Inr adj
           | Some l \<Rightarrow>
               if l = [] then Inr adj
               else let nextId = parse_linkedTo l
                    in if map_of idMap nextId = None then Inr adj
                       else Inr ((fst adj)(nextId \<mapsto> i), (snd adj)(i \<mapsto> nextId))))"

fun build_links :: "(sid \<times> Service) list \<Rightarrow> adjacency \<Rightarrow> Service list \<Rightarrow> py_error + adjacency" where
  "build_links idMap adj [] = Inr adj"
| "build_links idMap adj (sv # svs) =
     (case link_step idMap adj sv of
        Inl e \<Rightarrow> Inl e
      | Inr adj' \<Rightarrow> build_links idMap adj' svs)"

text \<open>
  \<open>followChain\<close>. The set \<open>visited\<close> is kept as the list of its elements in the order they
  were added; membership is all the source asks of it. The function is a Python recursion:
  every call takes one frame of the interpreter's stack, and a call made when the
  interpreter's recursion limit is reached raises RecursionError. The first argument is the
  number of calls the interpreter still accepts: the recursion limit
  (\<open>sys.getrecursionlimit()\<close>, 1000 unless changed) less the depth of the stack at the call.
  The error leaves \<open>makeRakeCyclePathsSV\<close> as it is raised, nothing catches it.
\<close>

fun followChain ::
  "nat \<Rightarrow> (sid \<times> Service) list \<Rightarrow> (sid \<rightharpoonup> sid) \<Rightarrow> sid \<Rightarrow> sid list \<times> Service list
     \<Rightarrow> py_error + (sid list \<times> Service list)" where
  "followChain 0 idMap nxt i st = Inl RecursionError"
| "followChain (Suc frames) idMap nxt i (visited, chain) =
     (if i \<in> set visited then Inr (visited, chain)
      else case map_of idMap i of
             None \<Rightarrow> Inr (visited, chain)
           | Some sv \<Rightarrow>
               (case nxt i of
                  None \<Rightarrow> Inr (visited @ [i], chain @ [sv])
                | Some n \<Rightarrow>
                    if truthy n then followChain frames idMap nxt n (visited @ [i], chain @ [sv])
                    else Inr (visited @ [i], chain @ [sv])))"

text \<open>
  The loop \<open>for sid in idMap\<close> over the keys, with \<open>visited\<close> and the chains collected so
  far as its state. Every call of \<open>followChain\<close> from the loop is made at the same depth of
  the stack.
\<close>

fun start_loop ::
  "nat \<Rightarrow> (sid \<times> Service) list \<Rightarrow> adjacency \<Rightarrow> sid list \<Rightarrow> sid list \<times> Service list list
     \<Rightarrow> py_error + (sid list \<times> Service list list)" where
  "start_loop frames idMap adj [] st = Inr st"
| "start_loop frames idMap adj (i # keys) (visited, cycles) =
     (if i \<in> set visited then start_loop frames idMap adj keys (visited, cycles)
      else if fst adj i \<noteq> None then start_loop frames idMap adj keys (visited, cycles)
      else if snd adj i = None then start_loop frames idMap adj keys (visited, cycles)
      else case followChain frames idMap (snd adj) i (visited, []) of
             Inl e \<Rightarrow> Inl e
           | Inr (visited', chain) \<Rightarrow>
               start_loop frames idMap adj keys
                 (visited', if chain \<noteq> [] then cycles @ [chain] else cycles))"

text \<open>
  The whole function, from empty \<open>visited\<close> and an empty \<open>allCyclesWtt\<close>, for the number of
  calls the interpreter accepts from the body of \<open>makeRakeCyclePathsSV\<close>. The first
  component of the result is the final \<open>visited\<close>, kept for the statements about it; the
  second is \<open>allCyclesWtt\<close>.
\<close>

definition makeRakeCyclePathsSV_run ::
  "nat \<Rightarrow> Service list \<Rightarrow> py_error + (sid list \<times> Service list list)" where
  "makeRakeCyclePathsSV_run frames services =
     (let idMap = make_idMap services
      in case build_links idMap (Map.empty, Map.empty) (map snd idMap) of
           Inl e \<Rightarrow> Inl e
         | Inr adj \<Rightarrow> start_loop frames idMap adj (map fst idMap) ([], []))"

definition makeRakeCyclePathsSV :: "nat \<Rightarrow> Service list \<Rightarrow> py_error + Service list list" where
  "makeRakeCyclePathsSV frames services =
     map_sum id snd (makeRakeCyclePathsSV_run frames services)"

text \<open>
  The directed graph the links describe: the nodes are the keys of \<open>idMap\<close>, and every
  service in \<open>idMap\<close> whose \<open>linkedTo\<close> names a key contributes the edge from its first id
  to that key.
\<close>

definition link_edge :: "(sid \<times> Service) list \<Rightarrow> Service \<Rightarrow> (sid \<times> sid) list" where
  "link_edge idMap sv =
     (case serviceId sv of
        [] \<Rightarrow> []
      | i # _ \<Rightarrow>
          (case linkedTo sv of
             None \<Rightarrow> []
           | Some l \<Rightarrow>
               if l \<noteq> [] \<and> map_of idMap (parse_linkedTo l) \<noteq> None
               then [(i, parse_linkedTo l)] else []))"

definition link_edges :: "(sid \<times> Service) list \<Rightarrow> (sid \<times> sid) list" where
  "link_edges idMap = concat (map (link_edge idMap) (map snd idMap))"

text \<open>
  Invariants used in the proofs: the dictionary has distinct keys and every stored service
  has an id; whoever is the \<open>next\<close> of a node has a \<open>prev\<close>. A chain start is a key
  without \<open>prev\<close> and with \<open>next\<close>, the test of the loop over the keys.
\<close>

definition idMap_ok :: "(sid \<times> Service) list \<Rightarrow> bool" where
  "idMap_ok d = (distinct (map fst d) \<and> (\<forall>kv \<in> set d. serviceId (snd kv) \<noteq> []))"

definition adj_ok :: "adjacency \<Rightarrow> bool" where
  "adj_ok adj = (\<forall>m n. snd adj m = Some n \<longrightarrow> fst adj n \<noteq> None)"

definition chain_start :: "adjacency \<Rightarrow> sid \<Rightarrow> bool" where
  "chain_start adj k = (fst adj k = None \<and> snd adj k \<noteq> None)"

text \<open>
  The graph of the comment above \<open>makeRakeCyclePathsSV\<close>: the nodes are the services, and
  there is an edge from \<open>u\<close> to \<open>v\<close> when \<open>u.linkedTo\<close> names an id of \<open>v\<close>. The head of a
  chain is a service with a successor and without a predecessor among the services.
\<close>

definition links_to :: "Service \<Rightarrow> Service \<Rightarrow> bool" where
  "links_to u v =
     (case linkedTo u of
        None \<Rightarrow> False
      | Some l \<Rightarrow> l \<noteq> [] \<and> parse_linkedTo l \<in> set (serviceId v))"

definition chain_head :: "Service list \<Rightarrow> Service \<Rightarrow> bool" where
  "chain_head services s =
     (list_ex (links_to s) services \<and> \<not> list_ex (\<lambda>r. links_to r s) services)"

text \<open>
  Lists of services in which every service has exactly one id and no two services have the
  same id.
\<close>

definition one_id_each :: "Service list \<Rightarrow> bool" where
  "one_id_each services =
     (list_all (\<lambda>s. length (serviceId s) = 1) services
      \<and> distinct (map (\<lambda>s. hd (serviceId s)) services))"

section \<open>TimeTable.fixPath and the matching loop of generateRakeCycles\<close>

text \<open>
  \<open>allServices = {str(s.serviceId[0]): s for s in self.suburbanServices}\<close>: the services
  under the string of their first id, a later service replacing an earlier one with the
  same key.
\<close>

fun allServices_from ::
  "(string \<times> Service) list \<Rightarrow> Service list \<Rightarrow> py_error + (string \<times> Service) list" where
  "allServices_from d [] = Inr d"
| "allServices_from d (s # ss) =
     (case serviceId s of
        [] \<Rightarrow> Inl IndexError
      | i # _ \<Rightarrow> allServices_from (dict_set d (py_str i) s) ss)"

definition make_allServices :: "Service list \<Rightarrow> py_error + (string \<times> Service) list" where
  "make_allServices suburbanServices = allServices_from [] suburbanServices"

text \<open>\<open>str(sv.linkedTo)\<close>, where \<open>linkedTo\<close> may be None.\<close>

definition str_linkedTo :: "Service \<Rightarrow> string" where
  "str_linkedTo sv = (case linkedTo sv of None \<Rightarrow> ''None'' | Some l \<Rightarrow> l)"

text \<open>The loop that rebuilds the path from the declared ids.\<close>

fun rebuild_path :: "(string \<times> Service) list \<Rightarrow> sid list \<Rightarrow> py_error + Service list" where
  "rebuild_path allServices [] = Inr []"
| "rebuild_path allServices (i # ids) =
     (case map_of allServices (py_str i) of
        None \<Rightarrow> Inl ValueError
      | Some svc \<Rightarrow>
          (case rebuild_path allServices ids of
             Inl e \<Rightarrow> Inl e
           | Inr path \<Rightarrow> Inr (svc # path)))"

text \<open>
  \<open>fixPath\<close> returns the cycle, whose status it may have set, and its return value: a
  path, or None when the function ends without a \<open>return\<close>.
\<close>

definition fixPath ::
  "Service list \<Rightarrow> Service RakeCycle \<Rightarrow> py_error + (Service RakeCycle \<times> Service list option)" where
  "fixPath suburbanServices rc =
     (case serviceIds rc of
        [] \<Rightarrow> Inl IndexError
      | i # _ \<Rightarrow>
          if undefinedIds rc \<noteq> [] then Inr (rc\<lparr>status := INVALID\<rparr>, Some [])
          else
            (case make_allServices suburbanServices of
               Inl e \<Rightarrow> Inl e
             | Inr allServices \<Rightarrow>
                 (case map_of allServices (py_str i) of
                    None \<Rightarrow> Inl ValueError
                  | Some s \<Rightarrow>
                      if \<exists>sv \<in> set (map snd allServices). py_str i = str_linkedTo sv
                      then (case rebuild_path allServices (serviceIds rc) of
                              Inl e \<Rightarrow> Inl e
                            | Inr path \<Rightarrow> Inr (rc, Some path))
                      else Inr (rc, None))))"

text \<open>
  The inner loop \<open>for path in self.allCyclesWtt\<close> of \<open>generateRakeCycles\<close>: every chain
  whose first service's first id has the same string as the first declared id is assigned,
  the last one stays.
\<close>

fun match_paths :: "Service RakeCycle \<Rightarrow> Service list list \<Rightarrow> py_error + Service RakeCycle" where
  "match_paths rc [] = Inr rc"
| "match_paths rc (path # paths) =
     (case serviceIds rc of
        [] \<Rightarrow> Inl IndexError
      | i # _ \<Rightarrow>
          (case path of
             [] \<Rightarrow> Inl IndexError
           | p # _ \<Rightarrow>
               (case serviceId p of
                  [] \<Rightarrow> Inl IndexError
                | j # _ \<Rightarrow>
                    match_paths (if py_str i = py_str j then rc\<lparr>servicePath := Some path\<rparr> else rc)
                      paths)))"

text \<open>
  The body of the loop \<open>for rc in self.rakecycles\<close>. When the path is still None or empty,
  the log message is built first: it reads \<open>rc.serviceIds[0]\<close> and the loop variable
  \<open>path\<close>, which is unbound when there is no chain at all. The result is the cycle and
  whether it was appended to \<open>invalid\<close>.
\<close>

definition resolve_cycle ::
  "Service list \<Rightarrow> Service list list \<Rightarrow> Service RakeCycle
     \<Rightarrow> py_error + (Service RakeCycle \<times> bool)" where
  "resolve_cycle suburbanServices allCyclesWtt rc =
     (case match_paths rc allCyclesWtt of
        Inl e \<Rightarrow> Inl e
      | Inr rc1 \<Rightarrow>
          if servicePath rc1 = None \<or> servicePath rc1 = Some [] then
            if serviceIds rc1 = [] then Inl IndexError
            else if allCyclesWtt = [] then Inl UnboundLocalError
            else (case fixPath suburbanServices rc1 of
                    Inl e \<Rightarrow> Inl e
                  | Inr (rc2, fixedPath) \<Rightarrow>
                      Inr (rc2\<lparr>servicePath := fixedPath\<rparr>, status rc2 = INVALID))
          else Inr (rc1, False))"

fun resolve_scan ::
  "Service list \<Rightarrow> Service list list \<Rightarrow> Service RakeCycle list
     \<Rightarrow> py_error + (Service RakeCycle \<times> bool) list" where
  "resolve_scan suburbanServices allCyclesWtt [] = Inr []"
| "resolve_scan suburbanServices allCyclesWtt (rc # rcs) =
     (case resolve_cycle suburbanServices allCyclesWtt rc of
        Inl e \<Rightarrow> Inl e
      | Inr r \<Rightarrow>
          (case resolve_scan suburbanServices allCyclesWtt rcs of
             Inl e \<Rightarrow> Inl e
           | Inr rs \<Rightarrow> Inr (r # rs)))"

text \<open>
  The loop over the cycles followed by \<open>for rc in invalid: self.rakecycles.remove(rc)\<close>,
  for the sorted \<open>suburbanServices\<close> and the chains \<open>allCyclesWtt\<close> that
  \<open>makeRakeCyclePathsSV\<close> produced from them. The cycle objects in \<open>invalid\<close> are removed
  by identity, that is at their positions.
\<close>

definition resolve_cycles ::
  "Service list \<Rightarrow> Service list list \<Rightarrow> Service RakeCycle list
     \<Rightarrow> py_error + Service RakeCycle list" where
  "resolve_cycles suburbanServices allCyclesWtt rakecycles =
     (case resolve_scan suburbanServices allCyclesWtt rakecycles of
        Inl e \<Rightarrow> Inl e
      | Inr rs \<Rightarrow> Inr (map fst (filter (\<lambda>r. \<not> snd r) rs)))"

section \<open>The constraint checks of Service\<close>

text \<open>
  Each check leaves the service alone or sets \<open>render\<close> to False. An Optional string is
  falsy when it is None or empty. Unpacking an \<open>inTimePeriod\<close> that is None and comparing a
  bound with a time that is None raise TypeError; \<open>events[0]\<close> and \<open>events[-1]\<close> raise
  IndexError on a service without events.
\<close>

definition checkDirectionConstraint :: "Service \<Rightarrow> FilterQuery \<Rightarrow> Service" where
  "checkDirectionConstraint svc qq =
     (case inDirection qq of
        None \<Rightarrow> svc
      | Some ds \<Rightarrow>
          if ds = [] then svc
          else if \<exists>d \<in> set ds. (d = ''UP'' \<and> direction svc = Some UP)
                              \<or> (d = ''DOWN'' \<and> direction svc = Some DOWN)
          then svc
          else svc\<lparr>render := False\<rparr>)"

definition checkACConstraint :: "Service \<Rightarrow> FilterQuery \<Rightarrow> Service" where
  "checkACConstraint svc qq =
     (case ac qq of
        None \<Rightarrow> svc
      | Some mode \<Rightarrow>
          if mode = [] \<or> mode = ''all'' then svc
          else if mode = ''ac'' \<and> \<not> needsACRake svc then svc\<lparr>render := False\<rparr>
          else if mode = ''nonac'' \<and> needsACRake svc then svc\<lparr>render := False\<rparr>
          else svc)"

text \<open>
  The common shape of the start and end station checks: \<open>e\<close> is \<open>events[0]\<close> or
  \<open>events[-1]\<close>, \<open>stn\<close> the station asked for.
\<close>

definition check_terminal :: "Service \<Rightarrow> FilterQuery \<Rightarrow> string \<Rightarrow> StationEvent \<Rightarrow> py_error + Service" where
  "check_terminal svc qq stn e =
     (case inTimePeriod qq of
        None \<Rightarrow> Inl TypeError
      | Some w \<Rightarrow>
          if atStation e = stn then
            (case atTime e of
               None \<Rightarrow> Inl TypeError
             | Some t \<Rightarrow> if \<not> in_period w t then Inr (svc\<lparr>render := False\<rparr>) else Inr svc)
          else Inr (svc\<lparr>render := False\<rparr>))"

definition checkStartStationConstraint :: "Service \<Rightarrow> FilterQuery \<Rightarrow> py_error + Service" where
  "checkStartStationConstraint svc qq =
     (case startStation qq of
        None \<Rightarrow> Inr svc
      | Some start \<Rightarrow>
          if start = [] then Inr svc
          else if events svc = [] then Inl IndexError
          else check_terminal svc qq start (hd (events svc)))"

definition checkEndStationConstraint :: "Service \<Rightarrow> FilterQuery \<Rightarrow> py_error + Service" where
  "checkEndStationConstraint svc qq =
     (case endStation qq of
        None \<Rightarrow> Inr svc
      | Some end \<Rightarrow>
          if end = [] then Inr svc
          else if events svc = [] then Inl IndexError
          else check_terminal svc qq end (last (events svc)))"

text \<open>
  \<open>stnMapTimes\<close> maps a station to the times of the events at it, in event order; a station
  is a key when that list is not empty. The check reads the last time of each queried
  station.
\<close>

definition stnMapTimes :: "StationEvent list \<Rightarrow> string \<Rightarrow> rat option list" where
  "stnMapTimes evs st = map atTime (filter (\<lambda>e. atStation e = st) evs)"

fun passing_loop :: "Service \<Rightarrow> FilterQuery \<Rightarrow> string list \<Rightarrow> py_error + Service" where
  "passing_loop svc qq [] = Inr svc"
| "passing_loop svc qq (st # sts) =
     (if stnMapTimes (events svc) st = [] then Inr (svc\<lparr>render := False\<rparr>)
      else case inTimePeriod qq of
             None \<Rightarrow> Inl TypeError
           | Some w \<Rightarrow>
               (case last (stnMapTimes (events svc) st) of
                  None \<Rightarrow> Inl TypeError
                | Some t \<Rightarrow>
                    if \<not> in_period w t then Inr (svc\<lparr>render := False\<rparr>)
                    else passing_loop svc qq sts))"

definition checkPassingThroughConstraint :: "Service \<Rightarrow> FilterQuery \<Rightarrow> py_error + Service" where
  "checkPassingThroughConstraint svc qq =
     (let qPassingStns = map upper (passingThrough qq)
      in if qPassingStns = [] then Inr svc else passing_loop svc qq qPassingStns)"

section \<open>FilterEngine\<close>

text \<open>
  The filter engine writes the \<open>render\<close> flags of service objects that the time table
  (\<open>suburbanServices\<close>) and the paths of the rake cycles share. The services therefore live
  in a store, \<open>heap\<close>, and \<open>suburbanServices\<close> and every \<open>servicePath\<close> hold addresses.
  Events belong to one service each and are kept inside it.
\<close>

record TimeTable =
  heap :: "nat \<Rightarrow> Service"
  suburbanServices :: "nat list"
  rakecycles :: "nat RakeCycle list"

text \<open>A loop over service objects that may raise: the store after the loop, or the exception.\<close>

fun heap_loop ::
  "(Service \<Rightarrow> py_error + Service) \<Rightarrow> (nat \<Rightarrow> Service) \<Rightarrow> nat list \<Rightarrow> py_error + (nat \<Rightarrow> Service)" where
  "heap_loop f h [] = Inr h"
| "heap_loop f h (a # as) =
     (case f (h a) of
        Inl e \<Rightarrow> Inl e
      | Inr s \<Rightarrow> heap_loop f (h(a := s)) as)"

text \<open>A loop over the rake cycles that may raise.\<close>

fun cycle_loop :: "('a \<Rightarrow> py_error + 'b) \<Rightarrow> 'a list \<Rightarrow> py_error + 'b list" where
  "cycle_loop f [] = Inr []"
| "cycle_loop f (x # xs) =
     (case f x of
        Inl e \<Rightarrow> Inl e
      | Inr y \<Rightarrow> (case cycle_loop f xs of Inl e \<Rightarrow> Inl e | Inr ys \<Rightarrow> Inr (y # ys)))"

subsection \<open>SERVICE mode\<close>

text \<open>The five checks, in the order of the source, each on the result of the one before.\<close>

definition service_checks :: "FilterQuery \<Rightarrow> Service \<Rightarrow> py_error + Service" where
  "service_checks qq s1 =
     (let s2 = checkDirectionConstraint s1 qq;
          s3 = checkACConstraint s2 qq
      in case checkStartStationConstraint s3 qq of
           Inl e \<Rightarrow> Inl e
         | Inr s4 \<Rightarrow>
             (case checkEndStationConstraint s4 qq of
                Inl e \<Rightarrow> Inl e
              | Inr s5 \<Rightarrow> checkPassingThroughConstraint s5 qq))"

text \<open>The body of the loop over the services.\<close>

definition service_pass :: "FilterQuery \<Rightarrow> Service \<Rightarrow> py_error + Service" where
  "service_pass qq svc =
     (if events svc = [] then Inr (svc\<lparr>render := False\<rparr>)
      else service_checks qq
             (svc\<lparr>render := True, events := map (\<lambda>ev. ev\<lparr>render := True\<rparr>) (events svc)\<rparr>))"

definition apply_service_filters :: "TimeTable \<Rightarrow> FilterQuery \<Rightarrow> py_error + TimeTable" where
  "apply_service_filters wtt qq =
     (case heap_loop (service_pass qq) (heap wtt) (suburbanServices wtt) of
        Inl e \<Rightarrow> Inl e
      | Inr h \<Rightarrow>
          Inr (wtt\<lparr>heap := h,
                   rakecycles :=
                     map (\<lambda>rc. rc\<lparr>render :=
                                  (case servicePath rc of
                                     None \<Rightarrow> False
                                   | Some p \<Rightarrow> p \<noteq> [] \<and> (\<exists>a \<in> set p. render (h a)))\<rparr>)
                         (rakecycles wtt)\<rparr>))"

subsection \<open>STATION mode\<close>

definition station_event_pass :: "rat \<times> rat \<Rightarrow> StationEvent \<Rightarrow> StationEvent" where
  "station_event_pass w ev =
     (case atTime ev of
        None \<Rightarrow> ev\<lparr>render := False\<rparr>
      | Some t \<Rightarrow> if \<not> in_period w t then ev\<lparr>render := False\<rparr> else ev\<lparr>render := True\<rparr>)"

definition station_pass :: "FilterQuery \<Rightarrow> rat \<times> rat \<Rightarrow> Service \<Rightarrow> py_error + Service" where
  "station_pass qq w svc =
     (if events svc = [] then Inr (svc\<lparr>render := False\<rparr>)
      else Inr (checkACConstraint
                  (svc\<lparr>render := True, events := map (station_event_pass w) (events svc)\<rparr>) qq))"

definition apply_station_filters :: "TimeTable \<Rightarrow> FilterQuery \<Rightarrow> py_error + TimeTable" where
  "apply_station_filters wtt qq =
     (case inTimePeriod qq of
        None \<Rightarrow> Inl TypeError
      | Some w \<Rightarrow>
          (case heap_loop (station_pass qq w) (heap wtt) (suburbanServices wtt) of
             Inl e \<Rightarrow> Inl e
           | Inr h \<Rightarrow>
               Inr (wtt\<lparr>heap := h,
                        rakecycles := map (\<lambda>rc. rc\<lparr>render := True\<rparr>) (rakecycles wtt)\<rparr>)))"

subsection \<open>RAKELINK mode\<close>

definition falsy :: "string option \<Rightarrow> bool" where
  "falsy s = (s = None \<or> s = Some [])"

definition terminal_pass ::
  "(nat \<Rightarrow> Service) \<Rightarrow> string option \<Rightarrow> string option \<Rightarrow> nat RakeCycle \<Rightarrow> py_error + nat RakeCycle" where
  "terminal_pass h start end rc =
     (case servicePath rc of
        None \<Rightarrow> Inr (rc\<lparr>render := False\<rparr>)
      | Some p \<Rightarrow>
          if p = [] then Inr (rc\<lparr>render := False\<rparr>)
          else if events (h (hd p)) = [] \<or> events (h (last p)) = [] then Inl IndexError
          else
            let first = atStation (hd (events (h (hd p))));
                lst = atStation (last (events (h (last p))));
                r1 = (if \<not> falsy start \<and> upper (the start) \<noteq> first then False else True);
                r2 = (if \<not> falsy end \<and> upper (the end) \<noteq> lst then False else r1)
            in Inr (rc\<lparr>render := r2\<rparr>))"

text \<open>
  The station membership loop with its \<open>break\<close>. The set \<open>seen\<close> is a list without
  repetitions, so that its length is \<open>len(seen)\<close>.
\<close>

fun seen_loop :: "string list \<Rightarrow> string list \<Rightarrow> StationEvent list \<Rightarrow> string list" where
  "seen_loop selected seen [] = seen"
| "seen_loop selected seen (e # es) =
     (if atStation e = [] then seen_loop selected seen es
      else
        let stName = upper (strip (atStation e));
            seen' = (if stName \<in> set selected then List.insert stName seen else seen)
        in if length seen' = length selected then seen' else seen_loop selected seen' es)"

text \<open>The events of a cycle that pass the time filter; \<open>not e.atTime\<close> holds for None and for 0.\<close>

definition window_events :: "(nat \<Rightarrow> Service) \<Rightarrow> FilterQuery \<Rightarrow> nat list \<Rightarrow> StationEvent list" where
  "window_events h qq p =
     (let el = concat (map (\<lambda>a. events (h a)) p)
      in case inTimePeriod qq of
           None \<Rightarrow> el
         | Some w \<Rightarrow>
             filter (\<lambda>e. case atTime e of None \<Rightarrow> False | Some t \<Rightarrow> t \<noteq> 0 \<and> in_period w t) el)"

definition passing_pass :: "(nat \<Rightarrow> Service) \<Rightarrow> FilterQuery \<Rightarrow> nat RakeCycle \<Rightarrow> nat RakeCycle" where
  "passing_pass h qq rc =
     (case servicePath rc of
        None \<Rightarrow> rc\<lparr>render := False\<rparr>
      | Some p \<Rightarrow>
          if p = [] then rc\<lparr>render := False\<rparr>
          else
            let selected = map upper (passingThrough qq);
                seen = seen_loop selected [] (window_events h qq p)
            in if length seen < length selected then rc\<lparr>render := False\<rparr> else rc)"

definition ac_pass :: "string \<Rightarrow> nat RakeCycle \<Rightarrow> nat RakeCycle" where
  "ac_pass mode rc =
     (case rake rc of
        None \<Rightarrow> rc\<lparr>render := False\<rparr>
      | Some rk \<Rightarrow>
          if mode = ''ac'' \<and> \<not> isAC rk then rc\<lparr>render := False\<rparr>
          else if mode = ''nonac'' \<and> isAC rk then rc\<lparr>render := False\<rparr>
          else rc)"

text \<open>The three passes over the rake cycles, and their sequence.\<close>

definition apply_terminal_station_filters ::
  "(nat \<Rightarrow> Service) \<Rightarrow> string option \<Rightarrow> string option \<Rightarrow> nat RakeCycle list
     \<Rightarrow> py_error + nat RakeCycle list" where
  "apply_terminal_station_filters h start end rcs = cycle_loop (terminal_pass h start end) rcs"

definition apply_passing_through_filter ::
  "(nat \<Rightarrow> Service) \<Rightarrow> FilterQuery \<Rightarrow> nat RakeCycle list \<Rightarrow> nat RakeCycle list" where
  "apply_passing_through_filter h qq rcs =
     (if passingThrough qq = [] then rcs else map (passing_pass h qq) rcs)"

definition apply_ac_filter :: "FilterQuery \<Rightarrow> nat RakeCycle list \<Rightarrow> nat RakeCycle list" where
  "apply_ac_filter qq rcs =
     (case ac qq of
        None \<Rightarrow> rcs
      | Some mode \<Rightarrow> if mode = ''all'' then rcs else map (ac_pass mode) rcs)"

definition apply_link_filters :: "TimeTable \<Rightarrow> FilterQuery \<Rightarrow> py_error + TimeTable" where
  "apply_link_filters wtt qq =
     (case apply_terminal_station_filters (heap wtt) (startStation qq) (endStation qq)
             (rakecycles wtt) of
        Inl e \<Rightarrow> Inl e
      | Inr rcs1 \<Rightarrow>
          Inr (wtt\<lparr>rakecycles :=
                     apply_ac_filter qq (apply_passing_through_filter (heap wtt) qq rcs1)\<rparr>))"

definition apply_filters :: "TimeTable \<Rightarrow> FilterQuery \<Rightarrow> py_error + TimeTable" where
  "apply_filters wtt qq =
     (if qtype qq = Some SERVICE then apply_service_filters wtt qq
      else if qtype qq = Some STATION then apply_station_filters wtt qq
      else apply_link_filters wtt qq)"

text \<open>
  The AC constraint of a query on an entity that is AC or not: the selector \<open>ac\<close> admits
  only AC ones, \<open>nonac\<close> only the others, and every other value of the field admits all.
\<close>

definition ac_allows :: "string option \<Rightarrow> bool \<Rightarrow> bool" where
  "ac_allows mode is_ac =
     (case mode of
        None \<Rightarrow> True
      | Some m \<Rightarrow> if m = ''ac'' then is_ac else if m = ''nonac'' then \<not> is_ac else True)"

text \<open>
  The last event of a service at a station has a time, and the time lies inside the closed
  window.
\<close>

definition last_time_ok :: "StationEvent list \<Rightarrow> rat \<times> rat \<Rightarrow> string \<Rightarrow> bool" where
  "last_time_ok evs w st =
     (case filter (\<lambda>e. atStation e = st) evs of
        [] \<Rightarrow> False
      | e # es \<Rightarrow>
          (case atTime (last (e # es)) of None \<Rightarrow> False | Some t \<Rightarrow> fst w \<le> t \<and> t \<le> snd w))"

text \<open>
  The visibility of a rake cycle after a RAKELINK-mode pass, stated without the loops. An
  event counts for the passing-through list when the query has no window, or when its time
  is neither None nor 0 and lies inside the closed window; it is at a queried station when
  its station name, stripped and upper-cased, is the upper-cased queried name.
\<close>

definition event_in_window :: "FilterQuery \<Rightarrow> StationEvent \<Rightarrow> bool" where
  "event_in_window qq e =
     (case inTimePeriod qq of
        None \<Rightarrow> True
      | Some w \<Rightarrow>
          (case atTime e of None \<Rightarrow> False | Some t \<Rightarrow> t \<noteq> 0 \<and> fst w \<le> t \<and> t \<le> snd w))"

definition cycle_events :: "(nat \<Rightarrow> Service) \<Rightarrow> nat list \<Rightarrow> StationEvent list" where
  "cycle_events h p = concat (map (\<lambda>a. events (h a)) p)"

definition link_visible :: "(nat \<Rightarrow> Service) \<Rightarrow> FilterQuery \<Rightarrow> nat RakeCycle \<Rightarrow> bool" where
  "link_visible h qq rc =
     (case servicePath rc of
        None \<Rightarrow> False
      | Some p \<Rightarrow>
          p \<noteq> []
        \<and> (falsy (startStation qq)
             \<or> atStation (hd (events (h (hd p)))) = upper (the (startStation qq)))
        \<and> (falsy (endStation qq)
             \<or> atStation (last (events (h (last p)))) = upper (the (endStation qq)))
        \<and> distinct (map upper (passingThrough qq))
        \<and> (\<forall>st \<in> set (passingThrough qq).
              \<exists>e \<in> set (cycle_events h p).
                event_in_window qq e \<and> atStation e \<noteq> [] \<and> upper (strip (atStation e)) = upper st)
        \<and> (ac qq = None \<or> ac qq = Some ''all''
             \<or> (\<exists>rk. rake rc = Some rk \<and> ac_allows (ac qq) (isAC rk))))"

text \<open>The three parts of \<open>link_visible\<close>, one for each pass of the RAKELINK mode.\<close>

definition terminal_ok :: "(nat \<Rightarrow> Service) \<Rightarrow> FilterQuery \<Rightarrow> nat RakeCycle \<Rightarrow> bool" where
  "terminal_ok h qq rc =
     (case servicePath rc of
        None \<Rightarrow> False
      | Some p \<Rightarrow>
          p \<noteq> []
        \<and> (falsy (startStation qq)
             \<or> atStation (hd (events (h (hd p)))) = upper (the (startStation qq)))
        \<and> (falsy (endStation qq)
             \<or> atStation (last (events (h (last p)))) = upper (the (endStation qq))))"

definition passing_ok :: "(nat \<Rightarrow> Service) \<Rightarrow> FilterQuery \<Rightarrow> nat RakeCycle \<Rightarrow> bool" where
  "passing_ok h qq rc =
     (case servicePath rc of
        None \<Rightarrow> False
      | Some p \<Rightarrow>
          p \<noteq> [] \<and> distinct (map upper (passingThrough qq))
        \<and> (\<forall>st \<in> set (passingThrough qq).
              \<exists>e \<in> set (cycle_events h p).
                event_in_window qq e \<and> atStation e \<noteq> [] \<and> upper (strip (atStation e)) = upper st))"

definition rake_ok :: "FilterQuery \<Rightarrow> nat RakeCycle \<Rightarrow> bool" where
  "rake_ok qq rc =
     (ac qq = None \<or> ac qq = Some ''all''
      \<or> (\<exists>rk. rake rc = Some rk \<and> ac_allows (ac qq) (isAC rk)))"

text \<open>The stations, stripped and upper-cased, of the events with a station name.\<close>

definition stations_of :: "StationEvent list \<Rightarrow> string set" where
  "stations_of es = {upper (strip (atStation e)) | e. e \<in> set es \<and> atStation e \<noteq> []}"

chapter \<open>Verified properties\<close>

section \<open>Time conversion\<close>

lemma dval_le9: "is_digit c \<Longrightarrow> dval c \<le> 9"
  unfolding is_digit_def dval_def by arith

lemma re_H_bound: "(h, r) \<in> set (re_H s) \<Longrightarrow> h \<le> 23"
  by (auto simp: re_H_def split: list.splits if_splits dest: dval_le9)

lemma re_M_bound: "(m, r) \<in> set (re_M s) \<Longrightarrow> m \<le> 59"
  by (auto simp: re_M_def split: list.splits if_splits dest: dval_le9)

lemma re_HMS_bound: "(h, m, sec, r) \<in> set (re_HMS s) \<Longrightarrow> h \<le> 23 \<and> m \<le> 59"
  by (auto simp: re_HMS_def dest: re_H_bound re_M_bound)

lemma re_HM_bound: "(h, m, r) \<in> set (re_HM s) \<Longrightarrow> h \<le> 23 \<and> m \<le> 59"
  by (auto simp: re_HM_def dest: re_H_bound re_M_bound)

lemma strptime_HMS_bound:
  assumes "strptime_HMS s = Inr (h, m, sec)"
  shows "h \<le> 23 \<and> m \<le> 59 \<and> sec \<le> 59"
proof -
  from assms obtain r rest where "re_HMS s = (h, m, sec, r) # rest" and sec: "sec \<le> 59"
    by (auto simp: strptime_HMS_def split: list.splits if_splits)
  then have "(h, m, sec, r) \<in> set (re_HMS s)" by simp
  with re_HMS_bound sec show ?thesis by blast
qed

lemma strptime_HM_bound:
  assumes "strptime_HM s = Inr (h, m, sec)"
  shows "h \<le> 23 \<and> m \<le> 59 \<and> sec \<le> 59"
proof -
  from assms obtain r rest where "re_HM s = (h, m, r) # rest" and sec: "sec = 0"
    by (auto simp: strptime_HM_def split: list.splits if_splits)
  then have "(h, m, r) \<in> set (re_HM s)" by simp
  with re_HM_bound sec show ?thesis by blast
qed

lemma hms_minutes_range:
  assumes "h \<le> 23" "m \<le> 59" "sec \<le> 59"
  shows "0 \<le> hms_minutes (h, m, sec) \<and> hms_minutes (h, m, sec) < 1440"
proof -
  have a: "(of_nat h :: rat) \<le> 23" using assms(1) by (metis of_nat_le_iff of_nat_numeral)
  have b: "(of_nat m :: rat) \<le> 59" using assms(2) by (metis of_nat_le_iff of_nat_numeral)
  have c: "(of_nat sec :: rat) \<le> 59" using assms(3) by (metis of_nat_le_iff of_nat_numeral)
  have d: "(of_nat sec :: rat) / 60 < 1" using c by simp
  have e: "0 \<le> (of_nat sec :: rat) / 60" by simp
  show ?thesis unfolding hms_minutes_def using a b d e by simp
qed

lemma wrap_minutes_range:
  "0 \<le> x \<Longrightarrow> x < 1440 \<Longrightarrow> 165 \<le> wrap_minutes x \<and> wrap_minutes x < 1605"
  by (simp add: wrap_minutes_def)

lemma timeToMinutes_range: "timeToMinutes s = Some v \<Longrightarrow> 165 \<le> v \<and> v < 1605"
  unfolding timeToMinutes_def
  by (auto split: if_splits sum.splits dest!: strptime_HMS_bound strptime_HM_bound
      simp: hms_minutes_range wrap_minutes_range)

lemma is_digit_digit_char: "n \<le> 9 \<Longrightarrow> is_digit (digit_char n)"
  by (simp add: is_digit_def digit_char_def)

lemma dval_digit_char: "n \<le> 9 \<Longrightarrow> dval (digit_char n) = n"
  by (simp add: dval_def digit_char_def)

lemma colon_not_digit: "\<not> is_digit CHR '':''"
  by (simp add: is_digit_def)

lemma digit_char_neq_colon: "n \<le> 9 \<Longrightarrow> digit_char n \<noteq> CHR '':''"
  using colon_not_digit is_digit_digit_char by metis

lemma digit_char_eq_2: "n \<le> 9 \<Longrightarrow> (digit_char n = CHR ''2'') = (n = 2)"
proof
  assume n: "n \<le> 9" and e: "digit_char n = CHR ''2''"
  have "dval (digit_char n) = dval CHR ''2''" using e by simp
  then show "n = 2" using n by (simp add: dval_digit_char) (simp add: dval_def)
next
  assume "n = 2"
  moreover have "char_of (50::nat) = CHR ''2''" by code_simp
  ultimately show "digit_char n = CHR ''2''" by (simp add: digit_char_def)
qed

lemma digit_char_eq_6: "n \<le> 9 \<Longrightarrow> (digit_char n = CHR ''6'') = (n = 6)"
proof
  assume n: "n \<le> 9" and e: "digit_char n = CHR ''6''"
  have "dval (digit_char n) = dval CHR ''6''" using e by simp
  then show "n = 6" using n by (simp add: dval_digit_char) (simp add: dval_def)
next
  assume "n = 6"
  moreover have "char_of (54::nat) = CHR ''6''" by code_simp
  ultimately show "digit_char n = CHR ''6''" by (simp add: digit_char_def)
qed

lemma digit_char_not_space: "n \<le> 9 \<Longrightarrow> \<not> py_isspace (digit_char n)"
  by (simp add: py_isspace_def digit_char_def)

lemma dropWhile_keeps: "xs \<noteq> [] \<Longrightarrow> \<not> P (hd xs) \<Longrightarrow> dropWhile P xs = xs"
  by (cases xs) simp_all

lemma strip_id:
  assumes "s \<noteq> []" "\<not> py_isspace (hd s)" "\<not> py_isspace (last s)"
  shows "strip s = s"
proof -
  have a: "dropWhile py_isspace s = s"
    using assms(1,2) by (rule dropWhile_keeps)
  have "rev s \<noteq> []" "\<not> py_isspace (hd (rev s))"
    using assms(1,3) by (simp_all add: hd_rev)
  then have b: "dropWhile py_isspace (rev s) = rev s"
    by (rule dropWhile_keeps)
  show ?thesis by (simp add: strip_def a b)
qed

lemmas digit_simps = is_digit_digit_char dval_digit_char digit_char_neq_colon digit_char_eq_2
  digit_char_eq_6 colon_not_digit

lemmas re_defs = strptime_HMS_def strptime_HM_def re_HMS_def re_HM_def re_H_def re_M_def
  re_S_def re_colon_def

lemma hour_tens_le9: "10 * h1 + h2 \<le> 23 \<Longrightarrow> h1 \<le> (9::nat)"
  by arith

lemma parse_HHMM:
  assumes "h2 \<le> 9" "10 * h1 + h2 \<le> 23" "m1 \<le> 5" "m2 \<le> 9"
  shows "strptime_HMS (digit_char h1 # digit_char h2 # CHR '':'' # [digit_char m1, digit_char m2])
           = Inl ValueError"
    and "strptime_HM (digit_char h1 # digit_char h2 # CHR '':'' # [digit_char m1, digit_char m2])
           = Inr (10 * h1 + h2, 10 * m1 + m2, 0)"
  using assms hour_tens_le9[OF assms(2)] by (auto simp: re_defs digit_simps)

lemma parse_HMM:
  assumes "h2 \<le> 9" "m1 \<le> 5" "m2 \<le> 9"
  shows "strptime_HMS (digit_char h2 # CHR '':'' # [digit_char m1, digit_char m2]) = Inl ValueError"
    and "strptime_HM (digit_char h2 # CHR '':'' # [digit_char m1, digit_char m2])
           = Inr (h2, 10 * m1 + m2, 0)"
  using assms by (auto simp: re_defs digit_simps)

lemma parse_HHMMSS:
  assumes "h2 \<le> 9" "10 * h1 + h2 \<le> 23" "m1 \<le> 5" "m2 \<le> 9" "s1 \<le> 5" "s2 \<le> 9"
  shows "strptime_HMS (digit_char h1 # digit_char h2 # CHR '':'' # digit_char m1 # digit_char m2
            # CHR '':'' # [digit_char s1, digit_char s2])
           = Inr (10 * h1 + h2, 10 * m1 + m2, 10 * s1 + s2)"
  using assms hour_tens_le9[OF assms(2)] by (auto simp: re_defs digit_simps)

lemma parse_HMMSS:
  assumes "h2 \<le> 9" "m1 \<le> 5" "m2 \<le> 9" "s1 \<le> 5" "s2 \<le> 9"
  shows "strptime_HMS (digit_char h2 # CHR '':'' # digit_char m1 # digit_char m2
            # CHR '':'' # [digit_char s1, digit_char s2])
           = Inr (h2, 10 * m1 + m2, 10 * s1 + s2)"
  using assms by (auto simp: re_defs digit_simps)

lemma timeToMinutes_None_iff:
  "(timeToMinutes t = None) = (t = [] \<or> (isl (strptime_HMS (strip t)) \<and> isl (strptime_HM (strip t))))"
  by (auto simp: timeToMinutes_def split: sum.splits)

text \<open>
  Claim C4. A time string \<open>H:MM\<close>, \<open>HH:MM\<close>, \<open>H:MM:SS\<close> or \<open>HH:MM:SS\<close> (hour digits
  \<open>h1 h2\<close> with value at most 23, minute digits \<open>m1 m2\<close> and second digits \<open>s1 s2\<close> with
  value at most 59) converts to its minutes since midnight \<open>60 h + m + s / 60\<close>, shifted by
  1440 when that value is below 165 and unchanged otherwise; \<open>02:30\<close> converts to 1590 and
  \<open>09:15\<close> to 555; and the result is None exactly for the empty string and for a string that
  neither \<open>%H:%M:%S\<close> nor \<open>%H:%M\<close> parses.
\<close>

theorem timeToMinutes_wrap_around:
  assumes "h2 \<le> 9" "10 * h1 + h2 \<le> 23" "m1 \<le> 5" "m2 \<le> 9" "s1 \<le> 5" "s2 \<le> 9"
    and hs: "hs = [digit_char h1, digit_char h2] \<or> (h1 = 0 \<and> hs = [digit_char h2])"
    and v: "v = rat_of_nat (60 * (10 * h1 + h2) + (10 * m1 + m2))"
    and w: "w = v + rat_of_nat (10 * s1 + s2) / 60"
  shows "timeToMinutes (hs @ '':'' @ [digit_char m1, digit_char m2])
           = Some (if v < 165 then v + 1440 else v)
       \<and> timeToMinutes (hs @ '':'' @ [digit_char m1, digit_char m2] @ '':''
                          @ [digit_char s1, digit_char s2])
           = Some (if w < 165 then w + 1440 else w)
       \<and> timeToMinutes ''02:30'' = Some 1590
       \<and> timeToMinutes ''09:15'' = Some 555
       \<and> (\<forall>t. (timeToMinutes t = None)
              = (t = [] \<or> (isl (strptime_HMS (strip t)) \<and> isl (strptime_HM (strip t)))))"
proof -
  have h1: "h1 \<le> 9" using assms(2) by (rule hour_tens_le9)
  have A: "timeToMinutes (hs @ '':'' @ [digit_char m1, digit_char m2])
             = Some (if v < 165 then v + 1440 else v)"
    using hs
  proof
    assume "hs = [digit_char h1, digit_char h2]"
    then show ?thesis
      using assms(1-4) h1
      by (simp add: timeToMinutes_def strip_id digit_char_not_space parse_HHMM
          hms_minutes_def wrap_minutes_def v)
  next
    assume "h1 = 0 \<and> hs = [digit_char h2]"
    then show ?thesis
      using assms(1-4)
      by (simp add: timeToMinutes_def strip_id digit_char_not_space parse_HMM
          hms_minutes_def wrap_minutes_def v)
  qed
  have B: "timeToMinutes (hs @ '':'' @ [digit_char m1, digit_char m2] @ '':''
                          @ [digit_char s1, digit_char s2])
             = Some (if w < 165 then w + 1440 else w)"
    using hs
  proof
    assume "hs = [digit_char h1, digit_char h2]"
    then show ?thesis
      using assms(1-6) h1
      by (simp add: timeToMinutes_def strip_id digit_char_not_space parse_HHMMSS
          hms_minutes_def wrap_minutes_def v w)
  next
    assume "h1 = 0 \<and> hs = [digit_char h2]"
    then show ?thesis
      using assms(1-6)
      by (simp add: timeToMinutes_def strip_id digit_char_not_space parse_HMMSS
          hms_minutes_def wrap_minutes_def v w)
  qed
  have C: "timeToMinutes ''02:30'' = Some 1590" by code_simp
  have D: "timeToMinutes ''09:15'' = Some 555" by code_simp
  show ?thesis using A B C D timeToMinutes_None_iff by blast
qed

theorem timeToMinutes_wrap_around_witness:
  "timeToMinutes ([digit_char 0, digit_char 2] @ '':'' @ [digit_char 3, digit_char 0]) = Some 1590
   \<and> timeToMinutes ([digit_char 0, digit_char 2] @ '':'' @ [digit_char 3, digit_char 0] @ '':''
                      @ [digit_char 3, digit_char 0]) = Some (3181 / 2)
   \<and> timeToMinutes ''24:00'' = None"
proof -
  have n: "timeToMinutes ''24:00'' = None" by code_simp
  show ?thesis
    using timeToMinutes_wrap_around [of 2 0 3 0 3 0 "[digit_char 0, digit_char 2]" 150 "301 / 2"] n
    by simp
qed

text \<open>
  Claim C10. For every input string the conversion returns None or a value \<open>v\<close> with
  \<open>165 \<le> v < 1605\<close>; hence the time of every constructed \<open>StationEvent\<close> is None or lies
  inside the default time window \<open>(165, 1605)\<close> of a \<open>FilterQuery\<close>.
\<close>

theorem timeToMinutes_in_default_window:
  "(timeToMinutes s = None \<or> (\<exists>v. timeToMinutes s = Some v \<and> 165 \<le> v \<and> v < 1605))
   \<and> (\<exists>w. inTimePeriod FilterQuery_default = Some w \<and> w = (165, 1605)
        \<and> (atTime (StationEvent_init st s) = None
            \<or> (\<exists>v. atTime (StationEvent_init st s) = Some v \<and> 165 \<le> v \<and> v < 1605
                    \<and> in_period w v)))"
proof (cases "timeToMinutes s")
  case None
  then show ?thesis by (simp add: StationEvent_init_def FilterQuery_default_def)
next
  case (Some v)
  then have "165 \<le> v \<and> v < 1605" by (rule timeToMinutes_range)
  with Some show ?thesis
    by (simp add: StationEvent_init_def FilterQuery_default_def in_period_def)
qed

section \<open>AC requirement of a column\<close>

lemma extractAC_loop_eq:
  "k \<le> 1 \<Longrightarrow> extractAC_loop k col =
     (col \<noteq> [] \<and> nat (1 - k) \<le> length (filter (\<lambda>c. is_ac_marker (strip c)) (butlast col)))"
proof (induction col arbitrary: k)
  case Nil
  then show ?case by simp
next
  case (Cons cell rest)
  show ?case
  proof (cases "k = 1")
    case True
    then show ?thesis by simp
  next
    case False
    with Cons.prems have k: "k + 1 \<le> 1" "k \<le> 1" by auto
    show ?thesis using False Cons.IH[OF k(1)] Cons.IH[OF k(2)] k
      by (auto simp: nat_le_iff)
  qed
qed

text \<open>
  Claim C9, refuted as stated: a column with a single marker cell \<open>AC\<close> gets the AC
  requirement False, although one of its cells mentions \<open>AC\<close>.
\<close>

theorem extractACRequirement_single_marker_counterexample:
  "is_ac_marker ''AC'' \<and> extractACRequirement [''93001'', ''AC'', ''9:15''] = False"
  by (simp add: extractACRequirement_def is_ac_marker_def strip_def py_isspace_def)

text \<open>
  Claim C9, amended. The counter starts at \<open>-1\<close>, every marker cell (a cell containing
  \<open>Air\<close>, \<open>Condition\<close> or \<open>AC\<close>) increments it, and the answer True is given at the cell
  that follows the second marker cell: the AC requirement is True exactly when at least two
  cells before the last cell of the column are marker cells. In particular it is False for a
  column with no marker cell or with only one.
\<close>

theorem extractACRequirement_needs_two_markers:
  "extractACRequirement col
     = (2 \<le> length (filter (\<lambda>cell. is_ac_marker (strip cell)) (butlast col)))"
proof -
  have "extractAC_loop (- 1) col
          = (col \<noteq> [] \<and> nat (1 - (- 1)) \<le> length (filter (\<lambda>c. is_ac_marker (strip c)) (butlast col)))"
    by (rule extractAC_loop_eq) simp
  moreover have "col = [] \<Longrightarrow> \<not> 2 \<le> length (filter (\<lambda>c. is_ac_marker (strip c)) (butlast col))"
    by simp
  ultimately show ?thesis
    unfolding extractACRequirement_def by auto
qed

section \<open>Rake assignment\<close>

lemma assign_scan_find:
  "assign_scan rk path =
     (case List.find decides_rake path of
        None \<Rightarrow> rk
      | Some svc \<Rightarrow> if needsACRake svc then rk\<lparr>isAC := True\<rparr>
                    else rk\<lparr>rakeSize := the (rakeSizeReq svc)\<rparr>)"
  by (induction path) (auto simp: decides_rake_def split: option.splits)

lemma assignRakes_from_ok:
  assumes "\<forall>rc \<in> set rcs. servicePath rc \<noteq> None"
  shows "\<exists>rcs'. assignRakes_from k rcs = Inr rcs' \<and> length rcs' = length rcs
           \<and> (\<forall>i < length rcs. rcs' ! i =
                 (rcs ! i)\<lparr>rake := Some (assign_scan (Rake_init (k + i)) (the (servicePath (rcs ! i))))\<rparr>)"
  using assms
proof (induction rcs arbitrary: k)
  case Nil
  then show ?case by simp
next
  case (Cons rc rcs)
  from Cons.prems obtain path where path: "servicePath rc = Some path" by auto
  from Cons.prems have "\<forall>rc \<in> set rcs. servicePath rc \<noteq> None" by simp
  from Cons.IH[OF this, of "Suc k"] obtain rcs' where
    r: "assignRakes_from (Suc k) rcs = Inr rcs'" "length rcs' = length rcs"
       "\<forall>i < length rcs. rcs' ! i =
          (rcs ! i)\<lparr>rake := Some (assign_scan (Rake_init (Suc k + i)) (the (servicePath (rcs ! i))))\<rparr>"
    by blast
  show ?case
  proof (intro exI conjI allI impI)
    show "assignRakes_from k (rc # rcs)
            = Inr (rc\<lparr>rake := Some (assign_scan (Rake_init k) path)\<rparr> # rcs')"
      using path r(1) by simp
    show "length (rc\<lparr>rake := Some (assign_scan (Rake_init k) path)\<rparr> # rcs') = length (rc # rcs)"
      using r(2) by simp
  next
    fix i assume "i < length (rc # rcs)"
    then show "(rc\<lparr>rake := Some (assign_scan (Rake_init k) path)\<rparr> # rcs') ! i =
          ((rc # rcs) ! i)\<lparr>rake := Some (assign_scan (Rake_init (k + i))
                                         (the (servicePath ((rc # rcs) ! i))))\<rparr>"
      using path r(3) by (cases i) simp_all
  qed
qed

text \<open>
  Claim C8, refuted as stated. On the path \<open>[93001, 93002]\<close>, where only the second service
  needs an AC rake and both declare 15 cars, the cycle gets a non-AC rake: the scan stops at
  the first service, whose car count is truthy. On a path whose first service needs an AC
  rake and declares 15 cars, the rake is AC with 12 cars, the default of the \<open>Rake\<close>
  constructor, not 15.
\<close>

theorem assignRakes_first_service_counterexample:
  "needsACRake (Service_init\<lparr>serviceId := [IntId 93002], rakeSizeReq := Some 15, needsACRake := True\<rparr>)
   \<and> assignRakes [(RakeCycle_init ''A'')\<lparr>servicePath := Some
          [Service_init\<lparr>serviceId := [IntId 93001], rakeSizeReq := Some 15\<rparr>,
           Service_init\<lparr>serviceId := [IntId 93002], rakeSizeReq := Some 15, needsACRake := True\<rparr>]\<rparr>]
      = Inr [(RakeCycle_init ''A'')\<lparr>servicePath := Some
          [Service_init\<lparr>serviceId := [IntId 93001], rakeSizeReq := Some 15\<rparr>,
           Service_init\<lparr>serviceId := [IntId 93002], rakeSizeReq := Some 15, needsACRake := True\<rparr>],
          rake := Some \<lparr>rakeId = 0, isAC = False, rakeSize = 15\<rparr>\<rparr>]
   \<and> assignRakes [(RakeCycle_init ''B'')\<lparr>servicePath := Some
          [Service_init\<lparr>serviceId := [IntId 93002], rakeSizeReq := Some 15, needsACRake := True\<rparr>]\<rparr>]
      = Inr [(RakeCycle_init ''B'')\<lparr>servicePath := Some
          [Service_init\<lparr>serviceId := [IntId 93002], rakeSizeReq := Some 15, needsACRake := True\<rparr>],
          rake := Some \<lparr>rakeId = 0, isAC = True, rakeSize = 12\<rparr>\<rparr>]"
  by (simp add: assignRakes_def Service_init_def RakeCycle_init_def Rake_init_def)

text \<open>
  Claim C8, amended. When every cycle has a path, \<open>assignRakes\<close> gives the cycle at
  position \<open>i\<close> a rake with id \<open>i\<close> and changes nothing else. The rake is non-AC with 12
  cars by default. The first service on the path, in path order, that needs an AC rake or
  declares a (nonzero) car count decides alone: if it needs an AC rake the rake is AC and
  keeps the default 12 cars, otherwise the rake is non-AC and has that service's car count.
\<close>

theorem assignRakes_first_deciding_service:
  assumes "\<forall>rc \<in> set rcs. servicePath rc \<noteq> None"
  shows "\<exists>rcs'. assignRakes rcs = Inr rcs' \<and> length rcs' = length rcs
           \<and> (\<forall>i < length rcs. rcs' ! i =
                 (rcs ! i)\<lparr>rake := Some
                    (case List.find decides_rake (the (servicePath (rcs ! i))) of
                       None \<Rightarrow> \<lparr>rakeId = i, isAC = False, rakeSize = 12\<rparr>
                     | Some svc \<Rightarrow>
                         if needsACRake svc then \<lparr>rakeId = i, isAC = True, rakeSize = 12\<rparr>
                         else \<lparr>rakeId = i, isAC = False, rakeSize = the (rakeSizeReq svc)\<rparr>)\<rparr>)"
proof -
  have eq: "\<And>i path. assign_scan (Rake_init i) path =
      (case List.find decides_rake path of
         None \<Rightarrow> \<lparr>rakeId = i, isAC = False, rakeSize = 12\<rparr>
       | Some svc \<Rightarrow>
           if needsACRake svc then \<lparr>rakeId = i, isAC = True, rakeSize = 12\<rparr>
           else \<lparr>rakeId = i, isAC = False, rakeSize = the (rakeSizeReq svc)\<rparr>)"
    by (simp add: assign_scan_find Rake_init_def split: option.splits)
  from assignRakes_from_ok[OF assms, of 0] show ?thesis
    unfolding assignRakes_def by (simp add: eq)
qed

theorem assignRakes_first_deciding_service_witness:
  "\<exists>rcs'. assignRakes [(RakeCycle_init ''A'')\<lparr>servicePath := Some
             [Service_init\<lparr>serviceId := [IntId 93001], rakeSizeReq := Some 15\<rparr>]\<rparr>] = Inr rcs'
     \<and> map rake rcs' = [Some \<lparr>rakeId = 0, isAC = False, rakeSize = 15\<rparr>]"
proof -
  let ?rcs = "[(RakeCycle_init ''A'')\<lparr>servicePath := Some
             [Service_init\<lparr>serviceId := [IntId 93001], rakeSizeReq := Some 15\<rparr>]\<rparr>]"
  have h: "\<forall>rc \<in> set ?rcs. servicePath rc \<noteq> None" by simp
  from assignRakes_first_deciding_service[OF h] obtain rcs' where
    r: "assignRakes ?rcs = Inr rcs'" "length rcs' = length ?rcs"
       "\<forall>i < length ?rcs. rcs' ! i =
                 (?rcs ! i)\<lparr>rake := Some
                    (case List.find decides_rake (the (servicePath (?rcs ! i))) of
                       None \<Rightarrow> \<lparr>rakeId = i, isAC = False, rakeSize = 12\<rparr>
                     | Some svc \<Rightarrow>
                         if needsACRake svc then \<lparr>rakeId = i, isAC = True, rakeSize = 12\<rparr>
                         else \<lparr>rakeId = i, isAC = False, rakeSize = the (rakeSizeReq svc)\<rparr>)\<rparr>"
    by blast
  from r(2) obtain x where x: "rcs' = [x]" by (cases rcs') simp_all
  from r(3) have "rcs' ! 0 = (?rcs ! 0)\<lparr>rake := Some
                    (case List.find decides_rake (the (servicePath (?rcs ! 0))) of
                       None \<Rightarrow> \<lparr>rakeId = 0, isAC = False, rakeSize = 12\<rparr>
                     | Some svc \<Rightarrow>
                         if needsACRake svc then \<lparr>rakeId = 0, isAC = True, rakeSize = 12\<rparr>
                         else \<lparr>rakeId = 0, isAC = False, rakeSize = the (rakeSizeReq svc)\<rparr>)\<rparr>"
    by simp
  then have "rake x = Some \<lparr>rakeId = 0, isAC = False, rakeSize = 15\<rparr>"
    using x by (simp add: decides_rake_def Service_init_def)
  with r(1) x show ?thesis by simp
qed

section \<open>Validation of rake cycles\<close>

lemma contains_hd: "contains n s \<Longrightarrow> n \<noteq> [] \<Longrightarrow> hd n \<in> set s"
proof (induction s)
  case Nil
  then show ?case by simp
next
  case (Cons y ys)
  then show ?case by (cases n) auto
qed

lemma str_nat_digits: "set (str_nat n) \<subseteq> digit_char ` {0..9}"
proof (induction n rule: str_nat.induct)
  case (1 n)
  show ?case
  proof (cases "n < 10")
    case True
    then show ?thesis by (subst str_nat.simps) auto
  next
    case False
    have "n mod 10 \<in> {0..9}" by auto
    with False 1 show ?thesis by (subst str_nat.simps) auto
  qed
qed

lemma E_not_digit_char: "CHR ''E'' \<notin> digit_char ` {0..9}"
proof
  assume "CHR ''E'' \<in> digit_char ` {0..9}"
  then obtain k where k: "k \<le> 9" "CHR ''E'' = digit_char k" by auto
  then have "is_digit CHR ''E''" by (simp add: is_digit_digit_char)
  then show False by (simp add: is_digit_def)
qed

text \<open>The decimal form of a number never contains \<open>ETY\<close>.\<close>

lemma no_ETY_in_int: "\<not> contains ''ETY'' (str_int i)"
proof
  assume "contains ''ETY'' (str_int i)"
  then have "CHR ''E'' \<in> set (str_int i)" using contains_hd by fastforce
  then have "CHR ''E'' \<in> set (str_nat (nat (- i))) \<or> CHR ''E'' \<in> set (str_nat (nat i))"
    by (auto simp: str_int_def split: if_splits)
  then show False using str_nat_digits E_not_digit_char by blast
qed

text \<open>What the loop body does hold to: an exact match and a single trailing \<open>ETY\<close> id.\<close>

lemma validate_cycle_exact:
  assumes "servicePath rc = Some path" "\<forall>svc \<in> set path. serviceId svc \<noteq> []"
    and "serviceIds rc = map (\<lambda>svc. hd (serviceId svc)) path"
  shows "validate_cycle rc = Inr None"
  using assms by (simp add: validate_cycle_def)

lemma validate_cycle_one_trailing:
  assumes "servicePath rc = Some path" "\<forall>svc \<in> set path. serviceId svc \<noteq> []"
    and "serviceIds rc = map (\<lambda>svc. hd (serviceId svc)) path @ [x]"
  shows "validate_cycle rc
           = (if contains ''ETY'' (py_str x) then Inr None
              else Inr (Some (map (\<lambda>svc. hd (serviceId svc)) path)))"
  using assms by (simp add: validate_cycle_def Let_def)

text \<open>
  With two trailing ids, the test reads \<open>summaryPathRed1[-1]\<close>, the last id of
  \<open>summaryPath[:-2]\<close>, which is the last id of the chain, and never the declared id before
  the last.
\<close>

lemma validate_cycle_two_trailing:
  assumes "servicePath rc = Some path" "\<forall>svc \<in> set path. serviceId svc \<noteq> []" "path \<noteq> []"
    and "serviceIds rc = map (\<lambda>svc. hd (serviceId svc)) path @ [x, y]"
  shows "validate_cycle rc
           = (if contains ''ETY'' (py_str (hd (serviceId (last path)))) \<and> contains ''ETY'' (py_str y)
              then Inr None
              else Inr (Some (map (\<lambda>svc. hd (serviceId svc)) path)))"
proof -
  let ?w = "map (\<lambda>svc. hd (serviceId svc)) path"
  have a: "butlast (?w @ [x, y]) = ?w @ [x]" by (simp add: butlast_append)
  have b: "butlast (?w @ [x]) = ?w" by simp
  have c: "?w \<noteq> ?w @ [x, y]" "?w @ [x] \<noteq> ?w" by simp_all
  have d: "last ?w = hd (serviceId (last path))" using assms(3) by (simp add: last_map)
  show ?thesis
    using assms(1,2,3) c d
    by (simp add: validate_cycle_def Let_def assms(4) a b del: butlast.simps butlast_append)
qed

text \<open>
  Claim C1 at a failing input. The chain is \<open>[93001, 93002]\<close> and the stub declares
  \<open>[93001, 93002, ETY 1, ETY 2]\<close>: the mismatch is confined to the two trailing declared
  ids and both contain \<open>ETY\<close>, so the claim keeps the cycle without conflict. The code
  records the pair (cycle, \<open>[93001, 93002]\<close>) in \<open>conflictingLinks\<close> and removes the cycle,
  because it looks for \<open>ETY\<close> in \<open>93002\<close>. Conversely, for the chain \<open>[ETY 0]\<close> and the stub
  \<open>[ETY 0, 93002, ETY 2]\<close>, where the divergent id \<open>93002\<close> has no \<open>ETY\<close>, the code keeps
  the cycle.
\<close>

theorem validateRakeCycles_two_trailing_ids:
  "validateRakeCycles
     [(stub_of ''A'' [IntId 93001, IntId 93002, StrId ''ETY 1'', StrId ''ETY 2''])
        \<lparr>servicePath := Some [service_of (IntId 93001) (Some ''93002''),
                               service_of (IntId 93002) None]\<rparr>]
   = Inr ([], [((stub_of ''A'' [IntId 93001, IntId 93002, StrId ''ETY 1'', StrId ''ETY 2''])
                  \<lparr>servicePath := Some [service_of (IntId 93001) (Some ''93002''),
                                         service_of (IntId 93002) None]\<rparr>,
                [IntId 93001, IntId 93002])])
   \<and> contains ''ETY'' (py_str (StrId ''ETY 1'')) \<and> contains ''ETY'' (py_str (StrId ''ETY 2''))
   \<and> validateRakeCycles
       [(stub_of ''B'' [StrId ''ETY 0'', IntId 93002, StrId ''ETY 2''])
          \<lparr>servicePath := Some [service_of (StrId ''ETY 0'') None]\<rparr>]
     = Inr ([(stub_of ''B'' [StrId ''ETY 0'', IntId 93002, StrId ''ETY 2''])
              \<lparr>servicePath := Some [service_of (StrId ''ETY 0'') None]\<rparr>], [])
   \<and> \<not> contains ''ETY'' (py_str (IntId 93002))"
  by (simp add: validateRakeCycles_def validate_cycle_def stub_of_def service_of_def
       RakeCycle_init_def Service_init_def no_ETY_in_int)

section \<open>Chains of linked services\<close>

subsection \<open>The dictionary of services\<close>

lemma dict_set_keys: "fst ` set (dict_set d k v) = insert k (fst ` set d)"
proof (induction d)
  case Nil
  then show ?case by simp
next
  case (Cons a d)
  obtain k' v' where a: "a = (k', v')" by (cases a)
  show ?case using Cons by (cases "k' = k") (simp_all add: a insert_commute)
qed

lemma dict_set_distinct: "distinct (map fst d) \<Longrightarrow> distinct (map fst (dict_set d k v))"
proof (induction d)
  case Nil
  then show ?case by simp
next
  case (Cons a d)
  obtain k' v' where a: "a = (k', v')" by (cases a)
  have "k' \<notin> fst ` set d \<Longrightarrow> k' \<noteq> k \<Longrightarrow> k' \<notin> fst ` set (dict_set d k v)"
    by (simp add: dict_set_keys)
  with Cons show ?case by (auto simp: a)
qed

lemma dict_set_entries: "set (dict_set d k v) \<subseteq> insert (k, v) (set d)"
proof (induction d)
  case Nil
  then show ?case by simp
next
  case (Cons a d)
  obtain k' v' where a: "a = (k', v')" by (cases a)
  show ?case using Cons by (cases "k' = k") (auto simp: a)
qed

lemma idMap_ok_inner:
  "idMap_ok d \<Longrightarrow> serviceId s \<noteq> [] \<Longrightarrow> idMap_ok (foldl (\<lambda>d' i. dict_set d' i s) d ids)"
proof (induction ids arbitrary: d)
  case Nil
  then show ?case by simp
next
  case (Cons i ids)
  have "idMap_ok (dict_set d i s)"
    using Cons.prems dict_set_entries[of d i s]
    by (auto simp: idMap_ok_def dict_set_distinct)
  then show ?case using Cons by simp
qed

lemma idMap_ok_outer:
  "idMap_ok d \<Longrightarrow>
   idMap_ok (foldl (\<lambda>d s. foldl (\<lambda>d' i. dict_set d' i s) d (serviceId s)) d services)"
proof (induction services arbitrary: d)
  case Nil
  then show ?case by simp
next
  case (Cons s services)
  have "idMap_ok (foldl (\<lambda>d' i. dict_set d' i s) d (serviceId s))"
  proof (cases "serviceId s = []")
    case True
    then show ?thesis using Cons.prems by simp
  next
    case False
    then show ?thesis using Cons.prems by (rule idMap_ok_inner[rotated])
  qed
  then show ?case using Cons.IH by simp
qed

lemma make_idMap_ok: "idMap_ok (make_idMap services)"
  unfolding make_idMap_def by (rule idMap_ok_outer) (simp add: idMap_ok_def)

subsection \<open>The adjacency\<close>

lemma link_step_ok:
  assumes "serviceId sv \<noteq> []" "adj_ok adj"
  shows "\<exists>adj'. link_step idMap adj sv = Inr adj' \<and> adj_ok adj'"
  using assms
  by (cases adj) (auto simp: link_step_def adj_ok_def Let_def split: list.splits option.splits)

lemma build_links_ok:
  assumes "\<forall>sv \<in> set svs. serviceId sv \<noteq> []" "adj_ok adj"
  shows "\<exists>adj'. build_links idMap adj svs = Inr adj' \<and> adj_ok adj'"
  using assms
proof (induction svs arbitrary: adj)
  case Nil
  then show ?case by simp
next
  case (Cons sv svs)
  from Cons.prems obtain adj1 where a: "link_step idMap adj sv = Inr adj1" "adj_ok adj1"
    using link_step_ok[of sv adj idMap] by auto
  from Cons.IH[OF _ a(2)] Cons.prems(1) obtain adj' where
    "build_links idMap adj1 svs = Inr adj'" "adj_ok adj'" by auto
  with a show ?case by simp
qed

lemma parse_linkedTo_examples:
  "parse_linkedTo ''93002'' = IntId 93002" "parse_linkedTo ''93003'' = IntId 93003"
  "parse_linkedTo ''93004'' = IntId 93004"
  by (simp_all add: parse_linkedTo_def py_int_def strip_def py_isspace_def is_digit_def
      dec_value_def dval_def)

subsection \<open>Following one chain\<close>

text \<open>
  Every call that goes on adds to \<open>visited\<close> a key of \<open>idMap\<close> that was not in it, so a call
  made with more frames than there are keys outside \<open>visited\<close> returns; it appends, to
  \<open>visited\<close> and to the chain, the new nodes and their services.
\<close>

lemma followChain_extends:
  assumes "card (fst ` set idMap - set visited) < frames"
  shows "\<exists>vs. followChain frames idMap nxt i (visited, chain)
           = Inr (visited @ vs, chain @ map (\<lambda>k. the (map_of idMap k)) vs)
       \<and> distinct vs \<and> set vs \<inter> set visited = {} \<and> set vs \<subseteq> fst ` set idMap
       \<and> (\<forall>v \<in> set vs. v = i \<or> (\<exists>m. nxt m = Some v))
       \<and> (i \<notin> set visited \<and> map_of idMap i \<noteq> None \<longrightarrow> vs \<noteq> [])"
  using assms
proof (induction frames arbitrary: i visited chain)
  case 0
  then show ?case by simp
next
  case (Suc frames)
  show ?case
  proof (cases "i \<in> set visited")
    case True
    then have "followChain (Suc frames) idMap nxt i (visited, chain) = Inr (visited, chain)"
      by simp
    then show ?thesis using True by (intro exI[of _ "[]"]) simp
  next
    case nv: False
    show ?thesis
    proof (cases "map_of idMap i")
      case None
      then have "followChain (Suc frames) idMap nxt i (visited, chain) = Inr (visited, chain)"
        using nv by simp
      then show ?thesis using None by (intro exI[of _ "[]"]) simp
    next
      case (Some sv)
      then have ik: "i \<in> fst ` set idMap" by (auto dest: map_of_SomeD intro: rev_image_eqI)
      show ?thesis
      proof (cases "\<exists>n. nxt i = Some n \<and> truthy n")
        case False
        then have "followChain (Suc frames) idMap nxt i (visited, chain)
                     = Inr (visited @ [i], chain @ [sv])"
          using nv Some by (auto split: option.splits)
        then show ?thesis using nv Some ik by (intro exI[of _ "[i]"]) simp
      next
        case True
        then obtain n where n: "nxt i = Some n" "truthy n" by blast
        have mem: "i \<in> fst ` set idMap - set visited" using ik nv by simp
        have fin: "finite (fst ` set idMap - set visited)" by simp
        have eq: "fst ` set idMap - set (visited @ [i]) = (fst ` set idMap - set visited) - {i}"
          by auto
        have "card ((fst ` set idMap - set visited) - {i}) < card (fst ` set idMap - set visited)"
          using fin mem by (rule card_Diff1_less)
        then have less: "card (fst ` set idMap - set (visited @ [i])) < frames"
          using Suc.prems by (simp only: eq)
        from Suc.IH[OF less, of n "chain @ [sv]"] obtain vs where vs:
          "followChain frames idMap nxt n (visited @ [i], chain @ [sv])
             = Inr ((visited @ [i]) @ vs, (chain @ [sv]) @ map (\<lambda>k. the (map_of idMap k)) vs)"
          "distinct vs" "set vs \<inter> set (visited @ [i]) = {}" "set vs \<subseteq> fst ` set idMap"
          "\<forall>v \<in> set vs. v = n \<or> (\<exists>m. nxt m = Some v)"
          by blast
        have step: "followChain (Suc frames) idMap nxt i (visited, chain)
                    = followChain frames idMap nxt n (visited @ [i], chain @ [sv])"
          using nv Some n by simp
        have "followChain (Suc frames) idMap nxt i (visited, chain)
                = Inr (visited @ (i # vs), chain @ map (\<lambda>k. the (map_of idMap k)) (i # vs))"
          using step vs(1) Some by simp
        moreover have "distinct (i # vs)" using vs(2,3) by auto
        moreover have "set (i # vs) \<inter> set visited = {}" using vs(3) nv by auto
        moreover have "set (i # vs) \<subseteq> fst ` set idMap" using vs(4) ik by simp
        moreover have "\<forall>v \<in> set (i # vs). v = i \<or> (\<exists>m. nxt m = Some v)"
          using vs(5) n(1) by auto
        ultimately show ?thesis by (intro exI[of _ "i # vs"]) simp
      qed
    qed
  qed
qed

text \<open>The only exception a call raises is RecursionError.\<close>

lemma followChain_error:
  "followChain frames idMap nxt i (visited, chain) = Inl e \<Longrightarrow> e = RecursionError"
proof (induction frames arbitrary: i visited chain)
  case 0
  then show ?case by simp
next
  case (Suc frames)
  then show ?case by (auto split: if_splits option.splits)
qed

text \<open>A call places at most as many services as it has frames.\<close>

lemma followChain_depth:
  "followChain frames idMap nxt i (visited, chain) = Inr (visited', chain')
     \<Longrightarrow> length chain' \<le> length chain + frames"
proof (induction frames arbitrary: i visited chain)
  case 0
  then show ?case by simp
next
  case (Suc frames)
  show ?case
  proof (cases "i \<notin> set visited \<and> (\<exists>sv n. map_of idMap i = Some sv \<and> nxt i = Some n \<and> truthy n)")
    case True
    then obtain sv n where n: "i \<notin> set visited" "map_of idMap i = Some sv" "nxt i = Some n"
      "truthy n" by blast
    with Suc.prems
    have "followChain frames idMap nxt n (visited @ [i], chain @ [sv]) = Inr (visited', chain')"
      by simp
    from Suc.IH[OF this] show ?thesis by simp
  next
    case False
    with Suc.prems show ?thesis by (auto split: if_splits option.splits)
  qed
qed

subsection \<open>The loop over the chain starts\<close>

lemma start_loop_spec:
  assumes "adj_ok adj" "distinct keys" "\<forall>k \<in> set keys. map_of idMap k \<noteq> None"
    and "distinct visited" "\<forall>v \<in> set visited. fst adj v \<noteq> None \<or> v \<notin> set keys"
    and "concat cycles = map (\<lambda>k. the (map_of idMap k)) visited" "\<forall>c \<in> set cycles. c \<noteq> []"
    and "set visited \<subseteq> fst ` set idMap" "card (fst ` set idMap) < frames"
  shows "\<exists>visited' cycles'.
             start_loop frames idMap adj keys (visited, cycles) = Inr (visited', cycles')
           \<and> distinct visited' \<and> set visited' \<subseteq> fst ` set idMap
           \<and> concat cycles' = map (\<lambda>k. the (map_of idMap k)) visited'
           \<and> (\<forall>c \<in> set cycles'. c \<noteq> [])
           \<and> length cycles' = length cycles + length (filter (chain_start adj) keys)"
  using assms
proof (induction keys arbitrary: visited cycles)
  case Nil
  then show ?case by simp
next
  case (Cons i keys)
  have dk: "distinct keys" and ik: "i \<notin> set keys" using Cons.prems(2) by auto
  have mk: "\<forall>k \<in> set keys. map_of idMap k \<noteq> None" using Cons.prems(3) by simp
  show ?case
  proof (cases "i \<in> set visited \<or> fst adj i \<noteq> None \<or> snd adj i = None")
    case True
    then have ns: "\<not> chain_start adj i"
      using Cons.prems(5) by (auto simp: chain_start_def)
    have step: "start_loop frames idMap adj (i # keys) (visited, cycles)
                  = start_loop frames idMap adj keys (visited, cycles)"
      using True by auto
    have inv: "\<forall>v \<in> set visited. fst adj v \<noteq> None \<or> v \<notin> set keys"
      using Cons.prems(5) by auto
    from Cons.IH[OF Cons.prems(1) dk mk Cons.prems(4) inv Cons.prems(6,7,8,9)]
    show ?thesis using step ns by simp
  next
    case False
    then have st: "i \<notin> set visited" "fst adj i = None" "snd adj i \<noteq> None" by auto
    then have cs: "chain_start adj i" by (simp add: chain_start_def)
    have mi: "map_of idMap i \<noteq> None" using Cons.prems(3) by simp
    have "card (fst ` set idMap - set visited) \<le> card (fst ` set idMap)"
      by (rule card_mono) auto
    then have less: "card (fst ` set idMap - set visited) < frames"
      using Cons.prems(9) by simp
    from followChain_extends[OF less, of "snd adj" i "[]"] st(1) mi obtain vs where vs:
      "followChain frames idMap (snd adj) i (visited, [])
         = Inr (visited @ vs, map (\<lambda>k. the (map_of idMap k)) vs)"
      "distinct vs" "set vs \<inter> set visited = {}" "set vs \<subseteq> fst ` set idMap"
      "\<forall>v \<in> set vs. v = i \<or> (\<exists>m. snd adj m = Some v)" "vs \<noteq> []"
      by auto
    let ?chain = "map (\<lambda>k. the (map_of idMap k)) vs"
    from st(3) obtain n where n: "snd adj i = Some n" by blast
    have step: "start_loop frames idMap adj (i # keys) (visited, cycles)
                  = start_loop frames idMap adj keys (visited @ vs, cycles @ [?chain])"
      using st(1,2) n vs(1,6) by simp
    have d: "distinct (visited @ vs)" using Cons.prems(4) vs(2,3) by auto
    have inv: "\<forall>v \<in> set (visited @ vs). fst adj v \<noteq> None \<or> v \<notin> set keys"
    proof
      fix v assume "v \<in> set (visited @ vs)"
      then consider "v \<in> set visited" | "v \<in> set vs" by auto
      then show "fst adj v \<noteq> None \<or> v \<notin> set keys"
      proof cases
        case 1
        then show ?thesis using Cons.prems(5) by auto
      next
        case 2
        then have "v = i \<or> (\<exists>m. snd adj m = Some v)" using vs(5) by blast
        then show ?thesis using ik Cons.prems(1) by (auto simp: adj_ok_def)
      qed
    qed
    have c: "concat (cycles @ [?chain]) = map (\<lambda>k. the (map_of idMap k)) (visited @ vs)"
      using Cons.prems(6) by simp
    have ne: "\<forall>c \<in> set (cycles @ [?chain]). c \<noteq> []"
      using Cons.prems(7) vs(6) by auto
    have sub: "set (visited @ vs) \<subseteq> fst ` set idMap" using Cons.prems(8) vs(4) by simp
    from Cons.IH[OF Cons.prems(1) dk mk d inv c ne sub Cons.prems(9)]
    show ?thesis using step cs by simp
  qed
qed

subsection \<open>The adjacency records the edges of the graph\<close>

lemma link_step_dom:
  assumes "link_step idMap adj sv = Inr adj'"
  shows "dom (fst adj') = dom (fst adj) \<union> snd ` set (link_edge idMap sv)
       \<and> dom (snd adj') = dom (snd adj) \<union> fst ` set (link_edge idMap sv)"
  using assms
  by (cases adj)
     (auto simp: link_step_def link_edge_def Let_def split: list.splits option.splits if_splits)

lemma build_links_dom:
  assumes "build_links idMap adj svs = Inr adj'"
  shows "dom (fst adj') = dom (fst adj) \<union> snd ` set (concat (map (link_edge idMap) svs))
       \<and> dom (snd adj') = dom (snd adj) \<union> fst ` set (concat (map (link_edge idMap) svs))"
  using assms
proof (induction svs arbitrary: adj)
  case Nil
  then show ?case by simp
next
  case (Cons sv svs)
  from Cons.prems obtain adj1 where a: "link_step idMap adj sv = Inr adj1"
    and b: "build_links idMap adj1 svs = Inr adj'"
    by (auto split: sum.splits)
  from link_step_dom[OF a] Cons.IH[OF b] show ?case
    by (simp add: image_Un Un_assoc)
qed

lemma chain_start_edges:
  assumes "build_links idMap (Map.empty, Map.empty) (map snd idMap) = Inr adj"
  shows "chain_start adj k
           = (k \<notin> snd ` set (link_edges idMap) \<and> k \<in> fst ` set (link_edges idMap))"
proof -
  from build_links_dom[OF assms]
  have "dom (fst adj) = snd ` set (link_edges idMap)" "dom (snd adj) = fst ` set (link_edges idMap)"
    by (simp_all add: link_edges_def)
  then show ?thesis
    unfolding chain_start_def by (metis domIff)
qed

subsection \<open>The chains of a list of services\<close>

text \<open>
  When the interpreter accepts more calls than the dictionary has keys,
  \<open>makeRakeCyclePathsSV\<close> returns, whatever the links, cyclic ones included. The keys it
  visits are pairwise different, and the services placed in the chains, read chain after
  chain, are the services stored under the visited keys in the order of the visits; no chain
  is empty, and there is one chain for every key without \<open>prev\<close> and with \<open>next\<close>.
\<close>

lemma makeRakeCyclePathsSV_run_spec:
  assumes "length (make_idMap services) < frames"
  shows "\<exists>adj visited paths.
      build_links (make_idMap services) (Map.empty, Map.empty) (map snd (make_idMap services))
        = Inr adj
    \<and> makeRakeCyclePathsSV_run frames services = Inr (visited, paths)
    \<and> distinct visited \<and> set visited \<subseteq> fst ` set (make_idMap services)
    \<and> concat paths = map (\<lambda>k. the (map_of (make_idMap services) k)) visited
    \<and> [] \<notin> set paths
    \<and> length paths = length (filter (chain_start adj) (map fst (make_idMap services)))"
proof -
  let ?idMap = "make_idMap services"
  let ?keys = "map fst ?idMap"
  have ok: "idMap_ok ?idMap" by (rule make_idMap_ok)
  then have dk: "distinct ?keys" and ids: "\<forall>sv \<in> set (map snd ?idMap). serviceId sv \<noteq> []"
    by (auto simp: idMap_ok_def)
  have "adj_ok (Map.empty, Map.empty)" by (simp add: adj_ok_def)
  with build_links_ok[OF ids] obtain adj where
    adj: "build_links ?idMap (Map.empty, Map.empty) (map snd ?idMap) = Inr adj" "adj_ok adj"
    by blast
  have mk: "\<forall>k \<in> set ?keys. map_of ?idMap k \<noteq> None"
    by (simp add: map_of_eq_None_iff)
  have "card (fst ` set ?idMap) \<le> length ?idMap"
    using card_length[of ?keys] by simp
  then have fr: "card (fst ` set ?idMap) < frames" using assms by simp
  from start_loop_spec[OF adj(2) dk mk, of "[]" "[]" frames] fr obtain visited paths where
    r: "start_loop frames ?idMap adj ?keys ([], []) = Inr (visited, paths)" "distinct visited"
       "set visited \<subseteq> fst ` set ?idMap"
       "concat paths = map (\<lambda>k. the (map_of ?idMap k)) visited"
       "\<forall>c \<in> set paths. c \<noteq> []"
       "length paths = length (filter (chain_start adj) ?keys)"
    by auto
  have run: "makeRakeCyclePathsSV_run frames services = Inr (visited, paths)"
    using adj(1) r(1) by (simp add: makeRakeCyclePathsSV_run_def)
  have ne: "[] \<notin> set paths" using r(5) by blast
  show ?thesis
    using adj(1) run r(2,3,4,6) ne by blast
qed

text \<open>
  The same in terms of the graph on the keys: the number of chains is the number of keys
  with no predecessor and at least one successor. This holds for every list of services,
  so in particular when the links have no cycle.
\<close>

theorem makeRakeCyclePathsSV_key_chains:
  assumes "length (make_idMap services) < frames"
  shows "\<exists>visited paths.
      makeRakeCyclePathsSV_run frames services = Inr (visited, paths)
    \<and> makeRakeCyclePathsSV frames services = Inr paths
    \<and> distinct visited
    \<and> concat paths = map (\<lambda>k. the (map_of (make_idMap services) k)) visited
    \<and> [] \<notin> set paths
    \<and> length paths
        = card {k \<in> fst ` set (make_idMap services).
                  k \<notin> snd ` set (link_edges (make_idMap services))
                \<and> k \<in> fst ` set (link_edges (make_idMap services))}"
proof -
  let ?idMap = "make_idMap services"
  let ?keys = "map fst ?idMap"
  from makeRakeCyclePathsSV_run_spec[OF assms] obtain adj visited paths where
    adj: "build_links ?idMap (Map.empty, Map.empty) (map snd ?idMap) = Inr adj"
    and run: "makeRakeCyclePathsSV_run frames services = Inr (visited, paths)"
    and r: "distinct visited" "concat paths = map (\<lambda>k. the (map_of ?idMap k)) visited"
       "[] \<notin> set paths"
    and len: "length paths = length (filter (chain_start adj) ?keys)"
    by blast
  have dk: "distinct ?keys" using make_idMap_ok by (simp add: idMap_ok_def)
  have "length (filter (chain_start adj) ?keys) = card ({k. chain_start adj k} \<inter> set ?keys)"
    using dk by (rule distinct_length_filter)
  also have "{k. chain_start adj k} \<inter> set ?keys
      = {k \<in> fst ` set ?idMap. k \<notin> snd ` set (link_edges ?idMap) \<and> k \<in> fst ` set (link_edges ?idMap)}"
    using chain_start_edges[OF adj] by auto
  finally have cnt: "length paths
      = card {k \<in> fst ` set ?idMap. k \<notin> snd ` set (link_edges ?idMap) \<and> k \<in> fst ` set (link_edges ?idMap)}"
    using len by simp
  show ?thesis
    using run r cnt by (simp add: makeRakeCyclePathsSV_def)
qed

subsection \<open>Services with one id each\<close>

lemma dict_set_new: "k \<notin> fst ` set d \<Longrightarrow> dict_set d k v = d @ [(k, v)]"
  by (induction d) auto

lemma make_idMap_one_id_aux:
  assumes "list_all (\<lambda>s. length (serviceId s) = 1) services"
    and "distinct (map (\<lambda>s. hd (serviceId s)) services)"
    and "\<forall>s \<in> set services. hd (serviceId s) \<notin> fst ` set d"
  shows "foldl (\<lambda>d s. foldl (\<lambda>d' i. dict_set d' i s) d (serviceId s)) d services
           = d @ map (\<lambda>s. (hd (serviceId s), s)) services"
  using assms
proof (induction services arbitrary: d)
  case Nil
  then show ?case by simp
next
  case (Cons s ss)
  from Cons.prems(1) have "length (serviceId s) = 1" by simp
  then obtain i where i: "serviceId s = [i]" by (cases "serviceId s") auto
  have fresh: "i \<notin> fst ` set d" using Cons.prems(3) i by simp
  have inner: "dict_set d i s = d @ [(i, s)]"
    using fresh by (rule dict_set_new)
  have a: "list_all (\<lambda>s. length (serviceId s) = 1) ss" using Cons.prems(1) by simp
  have b: "distinct (map (\<lambda>s. hd (serviceId s)) ss)" using Cons.prems(2) by simp
  have c: "\<forall>t \<in> set ss. hd (serviceId t) \<notin> fst ` set (d @ [(i, s)])"
    using Cons.prems(2,3) i by auto
  from Cons.IH[OF a b c] show ?case by (simp add: inner i)
qed

text \<open>Then the dictionary holds every service once, under its id, in the order of the list.\<close>

lemma make_idMap_one_id:
  assumes "one_id_each services"
  shows "make_idMap services = map (\<lambda>s. (hd (serviceId s), s)) services"
proof -
  from assms have a: "list_all (\<lambda>s. length (serviceId s) = 1) services"
    and b: "distinct (map (\<lambda>s. hd (serviceId s)) services)"
    by (simp_all add: one_id_each_def)
  have c: "\<forall>s \<in> set services. hd (serviceId s) \<notin> fst ` set ([] :: (sid \<times> Service) list)"
    by simp
  from make_idMap_one_id_aux[OF a b c] show ?thesis by (simp add: make_idMap_def)
qed

lemma one_id_link_edge:
  assumes o: "one_id_each services" and sv: "sv \<in> set services"
  shows "link_edge (make_idMap services) sv
           = (if list_ex (links_to sv) services
              then [(hd (serviceId sv), parse_linkedTo (the (linkedTo sv)))] else [])"
proof -
  let ?f = "\<lambda>s. hd (serviceId s)"
  have one: "\<And>t. t \<in> set services \<Longrightarrow> serviceId t = [?f t]"
  proof -
    fix t assume "t \<in> set services"
    with o have "length (serviceId t) = 1" by (simp add: one_id_each_def list_all_iff)
    then show "serviceId t = [?f t]" by (cases "serviceId t") auto
  qed
  have key: "\<And>x. (map_of (make_idMap services) x = None) = (x \<notin> ?f ` set services)"
    by (simp add: make_idMap_one_id[OF o] map_of_eq_None_iff image_image)
  have ones: "\<forall>t \<in> set services. set (serviceId t) = {?f t}"
  proof
    fix t assume "t \<in> set services"
    from one[OF this] have "set (serviceId t) = set [?f t]" by (rule arg_cong)
    then show "set (serviceId t) = {?f t}" by simp
  qed
  have ex: "\<And>l. (parse_linkedTo l \<in> ?f ` set services)
               = (\<exists>t \<in> set services. parse_linkedTo l \<in> set (serviceId t))"
    using ones by (auto simp: image_iff)
  show ?thesis
  proof (cases "linkedTo sv")
    case None
    from one[OF sv] obtain i where i: "serviceId sv = [i]" ..
    show ?thesis
      by (simp add: link_edge_def i None links_to_def list_ex_iff)
  next
    case (Some l)
    from one[OF sv] obtain i where i: "serviceId sv = [i]" ..
    have le: "link_edge (make_idMap services) sv
                = (if l \<noteq> [] \<and> parse_linkedTo l \<in> ?f ` set services
                   then [(i, parse_linkedTo l)] else [])"
    proof (cases "map_of (make_idMap services) (parse_linkedTo l)")
      case absent: None
      with key[of "parse_linkedTo l"] show ?thesis by (simp add: link_edge_def i Some)
    next
      case present: (Some t)
      with key[of "parse_linkedTo l"] show ?thesis by (simp add: link_edge_def i Some)
    qed
    have lx: "list_ex (links_to sv) services
                = (l \<noteq> [] \<and> parse_linkedTo l \<in> ?f ` set services)"
      by (simp add: list_ex_iff links_to_def Some ex)
    show ?thesis by (simp add: le lx i Some)
  qed
qed

lemma one_id_edges:
  assumes o: "one_id_each services"
  shows "set (link_edges (make_idMap services))
           = (\<lambda>sv. (hd (serviceId sv), parse_linkedTo (the (linkedTo sv))))
               ` {sv \<in> set services. list_ex (links_to sv) services}"
proof -
  have "map snd (make_idMap services) = services"
    by (simp add: make_idMap_one_id[OF o] comp_def)
  then have "set (link_edges (make_idMap services))
               = (\<Union>sv \<in> set services. set (link_edge (make_idMap services) sv))"
    by (simp add: link_edges_def)
  also have "\<dots> = (\<Union>sv \<in> set services.
                      set (if list_ex (links_to sv) services
                           then [(hd (serviceId sv), parse_linkedTo (the (linkedTo sv)))]
                           else []))"
    using one_id_link_edge[OF o] by simp
  also have "\<dots> = (\<lambda>sv. (hd (serviceId sv), parse_linkedTo (the (linkedTo sv))))
                      ` {sv \<in> set services. list_ex (links_to sv) services}"
    by auto
  finally show ?thesis .
qed

lemma one_id_edge_iff:
  assumes o: "one_id_each services"
  shows "((a, b) \<in> set (link_edges (make_idMap services)))
           = (\<exists>sv \<in> set services. list_ex (links_to sv) services
                \<and> a = hd (serviceId sv) \<and> b = parse_linkedTo (the (linkedTo sv)))"
  unfolding one_id_edges[OF o] by auto

text \<open>
  On such a list the test of the loop, no \<open>prev\<close> and some \<open>next\<close>, finds the heads of the
  chains of the graph on the services.
\<close>

lemma one_id_chain_start:
  assumes o: "one_id_each services" and s: "s \<in> set services"
    and adj: "build_links (make_idMap services) (Map.empty, Map.empty)
                (map snd (make_idMap services)) = Inr adj"
  shows "chain_start adj (hd (serviceId s)) = chain_head services s"
proof -
  let ?f = "\<lambda>s. hd (serviceId s)"
  let ?E = "set (link_edges (make_idMap services))"
  have inj: "inj_on ?f (set services)"
    using o by (simp add: one_id_each_def distinct_map)
  have one: "\<And>t. t \<in> set services \<Longrightarrow> set (serviceId t) = {?f t}"
  proof -
    fix t assume "t \<in> set services"
    with o have "length (serviceId t) = 1" by (simp add: one_id_each_def list_all_iff)
    then show "set (serviceId t) = {?f t}" by (cases "serviceId t") auto
  qed
  note E = one_id_edge_iff[OF o]
  have out: "(?f s \<in> fst ` ?E) = list_ex (links_to s) services"
  proof
    assume "?f s \<in> fst ` ?E"
    then obtain b where "(?f s, b) \<in> ?E" by force
    then obtain sv where sv: "sv \<in> set services" "list_ex (links_to sv) services"
      "?f s = ?f sv"
      unfolding E by blast
    from inj sv(3) s sv(1) have "s = sv" by (rule inj_onD)
    with sv(2) show "list_ex (links_to s) services" by simp
  next
    assume "list_ex (links_to s) services"
    with s have "(?f s, parse_linkedTo (the (linkedTo s))) \<in> ?E"
      unfolding E by blast
    then show "?f s \<in> fst ` ?E" by (rule rev_image_eqI) simp
  qed
  have inc: "(?f s \<in> snd ` ?E) = list_ex (\<lambda>r. links_to r s) services"
  proof
    assume "?f s \<in> snd ` ?E"
    then obtain a where "(a, ?f s) \<in> ?E" by force
    then obtain sv where sv: "sv \<in> set services" "list_ex (links_to sv) services"
      "?f s = parse_linkedTo (the (linkedTo sv))"
      unfolding E by blast
    from sv(2) obtain l where l: "linkedTo sv = Some l" "l \<noteq> []"
      by (auto simp: list_ex_iff links_to_def split: option.splits)
    have "links_to sv s" using l sv(3) one[OF s] by (simp add: links_to_def)
    with sv(1) show "list_ex (\<lambda>r. links_to r s) services" by (auto simp: list_ex_iff)
  next
    assume "list_ex (\<lambda>r. links_to r s) services"
    then obtain r where r: "r \<in> set services" "links_to r s" by (auto simp: list_ex_iff)
    then obtain l where l: "linkedTo r = Some l" "l \<noteq> []" "parse_linkedTo l = ?f s"
      using one[OF s] by (auto simp: links_to_def split: option.splits)
    have "list_ex (links_to r) services" using r(2) s by (auto simp: list_ex_iff)
    with r(1) l have "(?f r, ?f s) \<in> ?E"
      unfolding E by force
    then show "?f s \<in> snd ` ?E" by (rule rev_image_eqI) simp
  qed
  show ?thesis
    by (auto simp: chain_start_edges[OF adj] out inc chain_head_def)
qed

text \<open>
  When every service has exactly one id, no two services have the same id, and the
  interpreter accepts more calls than there are services, \<open>makeRakeCyclePathsSV\<close> returns,
  whatever the links, cyclic ones included; every service is placed in at most one chain,
  at most once; no chain is empty; and the number of chains is the number of services with
  no predecessor and at least one successor.
\<close>

theorem makeRakeCyclePathsSV_one_id_each:
  assumes o: "one_id_each services" and fr: "length services < frames"
  shows "\<exists>paths. makeRakeCyclePathsSV frames services = Inr paths
           \<and> distinct (concat paths) \<and> set (concat paths) \<subseteq> set services
           \<and> [] \<notin> set paths
           \<and> length paths = length (filter (chain_head services) services)"
proof -
  let ?f = "\<lambda>s. hd (serviceId s)"
  let ?idMap = "make_idMap services"
  have m: "?idMap = map (\<lambda>s. (?f s, s)) services" by (rule make_idMap_one_id[OF o])
  have len: "length ?idMap < frames" using fr by (simp add: m)
  from makeRakeCyclePathsSV_run_spec[OF len] obtain adj visited paths where
    adj: "build_links ?idMap (Map.empty, Map.empty) (map snd ?idMap) = Inr adj"
    and run: "makeRakeCyclePathsSV_run frames services = Inr (visited, paths)"
    and d: "distinct visited" and sub: "set visited \<subseteq> fst ` set ?idMap"
    and c: "concat paths = map (\<lambda>k. the (map_of ?idMap k)) visited"
    and ne: "[] \<notin> set paths"
    and cnt: "length paths = length (filter (chain_start adj) (map fst ?idMap))"
    by blast
  have res: "makeRakeCyclePathsSV frames services = Inr paths"
    using run by (simp add: makeRakeCyclePathsSV_def)
  have inj: "inj_on ?f (set services)"
    using o by (simp add: one_id_each_def distinct_map)
  have dk: "distinct (map ?f services)" using o by (simp add: one_id_each_def)
  have look: "\<And>s. s \<in> set services \<Longrightarrow> map_of ?idMap (?f s) = Some s"
  proof -
    fix s assume "s \<in> set services"
    then have "(?f s, s) \<in> set ?idMap" by (auto simp: m)
    moreover have "distinct (map fst ?idMap)" using dk by (simp add: m comp_def)
    ultimately show "map_of ?idMap (?f s) = Some s" by simp
  qed
  have keys: "fst ` set ?idMap = ?f ` set services" by (simp add: m image_image)
  have injv: "inj_on (\<lambda>k. the (map_of ?idMap k)) (set visited)"
  proof (rule inj_onI)
    fix x y assume x: "x \<in> set visited" and y: "y \<in> set visited"
      and e: "the (map_of ?idMap x) = the (map_of ?idMap y)"
    from x sub keys obtain sx where sx: "sx \<in> set services" "x = ?f sx" by auto
    from y sub keys obtain sy where sy: "sy \<in> set services" "y = ?f sy" by auto
    from e have "sx = sy" by (simp add: sx sy look)
    then show "x = y" by (simp add: sx sy)
  qed
  have dc: "distinct (concat paths)"
    using d injv by (simp add: c distinct_map)
  have sc: "set (concat paths) \<subseteq> set services"
  proof
    fix t assume "t \<in> set (concat paths)"
    then obtain k where k: "k \<in> set visited" "t = the (map_of ?idMap k)" by (auto simp: c)
    from k(1) sub keys obtain s where s: "s \<in> set services" "k = ?f s" by auto
    then show "t \<in> set services" by (simp add: k(2) look)
  qed
  have "filter (chain_start adj) (map fst ?idMap)
          = map ?f (filter (chain_start adj \<circ> ?f) services)"
    by (simp add: m comp_def filter_map)
  moreover have "filter (chain_start adj \<circ> ?f) services = filter (chain_head services) services"
    by (rule filter_cong[OF refl]) (simp add: one_id_chain_start[OF o _ adj])
  ultimately have "length paths = length (filter (chain_head services) services)"
    using cnt by simp
  with res dc sc ne show ?thesis by blast
qed

subsection \<open>A service with two ids\<close>

text \<open>
  With three frames for \<open>followChain\<close> a chain of three services is followed to its end;
  with two, the third call raises RecursionError and the function produces no chain.
\<close>

lemma makeRakeCyclePathsSV_recursion_limit:
  "makeRakeCyclePathsSV 3
     [service_of (IntId 93001) (Some ''93002''), service_of (IntId 93002) (Some ''93003''),
      service_of (IntId 93003) None]
   = Inr [[service_of (IntId 93001) (Some ''93002''), service_of (IntId 93002) (Some ''93003''),
           service_of (IntId 93003) None]]
   \<and> makeRakeCyclePathsSV 2
     [service_of (IntId 93001) (Some ''93002''), service_of (IntId 93002) (Some ''93003''),
      service_of (IntId 93003) None]
   = Inl RecursionError"
  by (simp add: makeRakeCyclePathsSV_def makeRakeCyclePathsSV_run_def make_idMap_def
      link_step_def service_of_def Service_init_def parse_linkedTo_examples Let_def
      numeral_3_eq_3 numeral_2_eq_2)

text \<open>
  Claim C3 at a failing input. The services are \<open>93001\<close>,
  linked to \<open>93003\<close>; one service with the two ids \<open>93002\<close> and \<open>93003\<close>, linked to
  \<open>93004\<close>; and \<open>93004\<close>, with no link. The links form the single path from the first
  service through the second to the third, with no cycle, and the first service is the only
  one with a successor and without a predecessor. For every number of frames from two on,
  \<open>makeRakeCyclePathsSV\<close> produces two chains, and the service with two ids is placed in
  both: it is reached under its second id, where no \<open>next\<close> is recorded, and found again as
  a chain start under its first id, where no \<open>prev\<close> is recorded.
\<close>

theorem makeRakeCyclePathsSV_two_id_service:
  "makeRakeCyclePathsSV (Suc (Suc frames))
     [service_of (IntId 93001) (Some ''93003''),
      Service_init\<lparr>serviceId := [IntId 93002, IntId 93003], rakeSizeReq := Some 15,
                    linkedTo := Some ''93004''\<rparr>,
      service_of (IntId 93004) None]
   = Inr [[service_of (IntId 93001) (Some ''93003''),
           Service_init\<lparr>serviceId := [IntId 93002, IntId 93003], rakeSizeReq := Some 15,
                         linkedTo := Some ''93004''\<rparr>],
          [Service_init\<lparr>serviceId := [IntId 93002, IntId 93003], rakeSizeReq := Some 15,
                         linkedTo := Some ''93004''\<rparr>,
           service_of (IntId 93004) None]]
   \<and> links_to (service_of (IntId 93001) (Some ''93003''))
        (Service_init\<lparr>serviceId := [IntId 93002, IntId 93003], rakeSizeReq := Some 15,
                      linkedTo := Some ''93004''\<rparr>)
   \<and> links_to (Service_init\<lparr>serviceId := [IntId 93002, IntId 93003], rakeSizeReq := Some 15,
                      linkedTo := Some ''93004''\<rparr>)
        (service_of (IntId 93004) None)
   \<and> filter (chain_head
        [service_of (IntId 93001) (Some ''93003''),
         Service_init\<lparr>serviceId := [IntId 93002, IntId 93003], rakeSizeReq := Some 15,
                       linkedTo := Some ''93004''\<rparr>,
         service_of (IntId 93004) None])
        [service_of (IntId 93001) (Some ''93003''),
         Service_init\<lparr>serviceId := [IntId 93002, IntId 93003], rakeSizeReq := Some 15,
                       linkedTo := Some ''93004''\<rparr>,
         service_of (IntId 93004) None]
     = [service_of (IntId 93001) (Some ''93003'')]"
  by (simp add: makeRakeCyclePathsSV_def makeRakeCyclePathsSV_run_def make_idMap_def
      link_step_def service_of_def Service_init_def parse_linkedTo_examples Let_def
      links_to_def chain_head_def)

section \<open>Stubs that match no chain\<close>

lemma map_of_dict_set: "map_of (dict_set d k v) = (map_of d)(k \<mapsto> v)"
proof (induction d)
  case Nil
  then show ?case by simp
next
  case (Cons a d)
  obtain k' v' where a: "a = (k', v')" by (cases a)
  show ?case using Cons by (cases "k' = k") (auto simp: a)
qed

lemma find_snoc:
  "List.find P (xs @ [x])
     = (case List.find P xs of Some y \<Rightarrow> Some y | None \<Rightarrow> if P x then Some x else None)"
  by (induction xs) auto

text \<open>
  The dictionary \<open>allServices\<close> maps a key to the last service of \<open>suburbanServices\<close> whose
  first id has that string.
\<close>

lemma allServices_from_lookup:
  assumes "allServices_from d ss = Inr d'"
  shows "map_of d' k
           = (case List.find (\<lambda>s. py_str (hd (serviceId s)) = k) (rev ss) of
                Some s \<Rightarrow> Some s
              | None \<Rightarrow> map_of d k)"
  using assms
proof (induction ss arbitrary: d)
  case Nil
  then show ?case by simp
next
  case (Cons s ss)
  from Cons.prems obtain i r where i: "serviceId s = i # r"
    and rest: "allServices_from (dict_set d (py_str i) s) ss = Inr d'"
    by (auto split: list.splits)
  from Cons.IH[OF rest] show ?case
    by (simp add: find_snoc map_of_dict_set i split: option.splits)
qed

lemma make_allServices_lookup:
  assumes "make_allServices ss = Inr d"
  shows "map_of d k = List.find (\<lambda>s. py_str (hd (serviceId s)) = k) (rev ss)"
  using allServices_from_lookup[of "[]" ss d k] assms
  by (simp add: make_allServices_def split: option.splits)

lemma rebuild_path_eq:
  "rebuild_path allS ids
     = (if \<forall>j \<in> set ids. map_of allS (py_str j) \<noteq> None
        then Inr (map (\<lambda>j. the (map_of allS (py_str j))) ids)
        else Inl ValueError)"
  by (induction ids) (auto split: option.splits)

lemma match_paths_none:
  assumes "serviceIds rc = i # rest"
    and "\<forall>path \<in> set paths. path \<noteq> [] \<and> serviceId (hd path) \<noteq> []
            \<and> py_str i \<noteq> py_str (hd (serviceId (hd path)))"
  shows "match_paths rc paths = Inr rc"
  using assms
proof (induction paths)
  case Nil
  then show ?case by simp
next
  case (Cons path paths)
  from Cons.prems(2) obtain p ps j js where p: "path = p # ps" "serviceId p = j # js"
    "py_str i \<noteq> py_str j"
    by (cases path; cases "serviceId (hd path)") auto
  from Cons show ?case by (simp add: p)
qed

lemma char_of_digits:
  "char_of (48::nat) = CHR ''0''" "char_of (49::nat) = CHR ''1''" "char_of (50::nat) = CHR ''2''"
  "char_of (51::nat) = CHR ''3''" "char_of (52::nat) = CHR ''4''" "char_of (53::nat) = CHR ''5''"
  "char_of (54::nat) = CHR ''6''" "char_of (55::nat) = CHR ''7''" "char_of (56::nat) = CHR ''8''"
  "char_of (57::nat) = CHR ''9''"
  by code_simp+

lemma str_int_examples:
  "str_int 93001 = ''93001''" "str_int 93002 = ''93002''" "str_int 93003 = ''93003''"
  "str_int 93005 = ''93005''" "str_int 93007 = ''93007''"
  by (simp_all add: str_int_def str_nat.simps digit_char_def char_of_digits)

text \<open>
  Claim C2 at a failing input. The services are \<open>93001\<close>,
  linked to \<open>93002\<close>, and \<open>93002\<close> and \<open>93007\<close>, with no link; the only chain is the one of
  \<open>93001\<close> and \<open>93002\<close>. The stub declares \<open>[93007]\<close> and has no undefined ids. Its first
  id matches no chain and is the \<open>linkedTo\<close> of no service, so a data-integrity error is due.
  \<open>fixPath\<close> finds the service, finds no \<open>linkedTo\<close> equal to the id, and ends without a
  \<open>return\<close>: it raises nothing and returns None. The path of the cycle becomes None and the
  cycle stays in \<open>rakecycles\<close>, where \<open>validateRakeCycles\<close> then fails with a TypeError.
\<close>

theorem fixPath_unlinked_first_id:
  "undefinedIds (stub_of ''X'' [IntId 93007] :: Service RakeCycle) = []
   \<and> py_str (IntId 93007) \<noteq> py_str (IntId 93001)
   \<and> str_linkedTo (service_of (IntId 93001) (Some ''93002'')) \<noteq> py_str (IntId 93007)
   \<and> str_linkedTo (service_of (IntId 93002) None) \<noteq> py_str (IntId 93007)
   \<and> str_linkedTo (service_of (IntId 93007) None) \<noteq> py_str (IntId 93007)
   \<and> fixPath
       [service_of (IntId 93001) (Some ''93002''), service_of (IntId 93002) None,
        service_of (IntId 93007) None]
       (stub_of ''X'' [IntId 93007])
     = Inr (stub_of ''X'' [IntId 93007], None)
   \<and> resolve_cycles
       [service_of (IntId 93001) (Some ''93002''), service_of (IntId 93002) None,
        service_of (IntId 93007) None]
       [[service_of (IntId 93001) (Some ''93002''), service_of (IntId 93002) None]]
       [stub_of ''X'' [IntId 93007]]
     = Inr [(stub_of ''X'' [IntId 93007])\<lparr>servicePath := None\<rparr>]
   \<and> validateRakeCycles [(stub_of ''X'' [IntId 93007])\<lparr>servicePath := None\<rparr>]
     = Inl TypeError"
  by (simp add: resolve_cycles_def resolve_cycle_def fixPath_def make_allServices_def
      str_linkedTo_def stub_of_def service_of_def RakeCycle_init_def Service_init_def
      str_int_examples validateRakeCycles_def validate_cycle_def)

text \<open>The chain of that input is the one \<open>makeRakeCyclePathsSV\<close> produces from its services.\<close>

lemma unlinked_stub_example_chains:
  "makeRakeCyclePathsSV (Suc (Suc frames))
     [service_of (IntId 93001) (Some ''93002''), service_of (IntId 93002) None,
      service_of (IntId 93007) None]
   = Inr [[service_of (IntId 93001) (Some ''93002''), service_of (IntId 93002) None]]"
  by (simp add: makeRakeCyclePathsSV_def makeRakeCyclePathsSV_run_def make_idMap_def
      link_step_def service_of_def Service_init_def parse_linkedTo_examples Let_def)

text \<open>
  With no chain at all the message for the log reads the loop variable \<open>path\<close>, which was
  never bound: every stub without a path ends the run with UnboundLocalError, whether it
  has undefined ids or not.
\<close>

lemma resolve_cycle_no_chain:
  assumes "servicePath rc = None" "serviceIds rc \<noteq> []"
  shows "resolve_cycle subs [] rc = Inl UnboundLocalError"
  using assms by (simp add: resolve_cycle_def)

text \<open>
  \<open>fixPath\<close> looks the declared ids up among the first ids only, where \<open>parseRakeLinks\<close> and
  \<open>makeRakeCyclePathsSV\<close> know a service under each of its ids. The services are \<open>93001\<close>
  (linked to \<open>93002\<close>), \<open>93002\<close> (linked to \<open>93003\<close>) and one service with the two ids
  \<open>93005, 93003\<close>; they form the single chain that starts with \<open>93001\<close>. The stub declares
  \<open>[93002, 93003]\<close> and has no undefined ids. Its first id matches no chain and is the
  \<open>linkedTo\<close> of service \<open>93001\<close>; the path is not rebuilt from the declared ids, a
  ValueError is raised, because \<open>93003\<close> is not the first id of any service.
\<close>

lemma fixPath_secondary_id_not_found:
  "makeRakeCyclePathsSV (Suc (Suc (Suc frames)))
     [service_of (IntId 93001) (Some ''93002''), service_of (IntId 93002) (Some ''93003''),
      Service_init\<lparr>serviceId := [IntId 93005, IntId 93003], rakeSizeReq := Some 15\<rparr>]
   = Inr [[service_of (IntId 93001) (Some ''93002''), service_of (IntId 93002) (Some ''93003''),
           Service_init\<lparr>serviceId := [IntId 93005, IntId 93003], rakeSizeReq := Some 15\<rparr>]]
   \<and> undefinedIds (stub_of ''X'' [IntId 93002, IntId 93003] :: Service RakeCycle) = []
   \<and> py_str (IntId 93002) \<noteq> py_str (IntId 93001)
   \<and> str_linkedTo (service_of (IntId 93001) (Some ''93002'')) = py_str (IntId 93002)
   \<and> resolve_cycle
       [service_of (IntId 93001) (Some ''93002''), service_of (IntId 93002) (Some ''93003''),
        Service_init\<lparr>serviceId := [IntId 93005, IntId 93003], rakeSizeReq := Some 15\<rparr>]
       [[service_of (IntId 93001) (Some ''93002''), service_of (IntId 93002) (Some ''93003''),
         Service_init\<lparr>serviceId := [IntId 93005, IntId 93003], rakeSizeReq := Some 15\<rparr>]]
       (stub_of ''X'' [IntId 93002, IntId 93003])
     = Inl ValueError"
proof -
  note i = str_int_examples
  note p = parse_linkedTo_examples
  have a: "makeRakeCyclePathsSV (Suc (Suc (Suc frames)))
     [service_of (IntId 93001) (Some ''93002''), service_of (IntId 93002) (Some ''93003''),
      Service_init\<lparr>serviceId := [IntId 93005, IntId 93003], rakeSizeReq := Some 15\<rparr>]
   = Inr [[service_of (IntId 93001) (Some ''93002''), service_of (IntId 93002) (Some ''93003''),
           Service_init\<lparr>serviceId := [IntId 93005, IntId 93003], rakeSizeReq := Some 15\<rparr>]]"
    by (simp add: makeRakeCyclePathsSV_def makeRakeCyclePathsSV_run_def make_idMap_def
        link_step_def service_of_def Service_init_def p Let_def)
  have b: "resolve_cycle
       [service_of (IntId 93001) (Some ''93002''), service_of (IntId 93002) (Some ''93003''),
        Service_init\<lparr>serviceId := [IntId 93005, IntId 93003], rakeSizeReq := Some 15\<rparr>]
       [[service_of (IntId 93001) (Some ''93002''), service_of (IntId 93002) (Some ''93003''),
         Service_init\<lparr>serviceId := [IntId 93005, IntId 93003], rakeSizeReq := Some 15\<rparr>]]
       (stub_of ''X'' [IntId 93002, IntId 93003])
     = Inl ValueError"
    by (simp add: resolve_cycle_def fixPath_def make_allServices_def str_linkedTo_def
        stub_of_def service_of_def RakeCycle_init_def Service_init_def i)
  show ?thesis
    using a b by (simp add: i stub_of_def RakeCycle_init_def str_linkedTo_def service_of_def
        Service_init_def)
qed

text \<open>
  What the code does in the other cases. Let a stub have a first declared id \<open>i\<close> and no
  path yet, let there be at least one chain, and let no chain start with a service whose
  first id has the string of \<open>i\<close>. (a) If the stub has undefined ids, it is marked INVALID,
  its path becomes the empty list and it is removed from \<open>rakecycles\<close>. Otherwise, with
  \<open>allServices\<close> the dictionary of the suburban services under the strings of their first
  ids: (b) if the string of \<open>i\<close> is not a key, a ValueError is raised; (c) if it is a key and
  equals \<open>str(linkedTo)\<close> of some service in the dictionary, the path is rebuilt from the
  declared ids, each looked up in the dictionary, and a ValueError is raised when one of
  them is not a key.
\<close>

theorem resolve_cycle_unmatched_stub:
  assumes ids: "serviceIds rc = i # rest"
    and fresh: "servicePath rc = None"
    and some_chain: "allCyclesWtt \<noteq> []"
    and nomatch: "\<forall>path \<in> set allCyclesWtt. path \<noteq> [] \<and> serviceId (hd path) \<noteq> []
                    \<and> py_str i \<noteq> py_str (hd (serviceId (hd path)))"
  shows "(undefinedIds rc \<noteq> [] \<longrightarrow>
            resolve_cycle subs allCyclesWtt rc
              = Inr (rc\<lparr>status := INVALID, servicePath := Some []\<rparr>, True)
          \<and> resolve_cycles subs allCyclesWtt [rc] = Inr [])
       \<and> (\<forall>allS. undefinedIds rc = [] \<and> make_allServices subs = Inr allS \<longrightarrow>
            (map_of allS (py_str i) = None \<longrightarrow>
               resolve_cycle subs allCyclesWtt rc = Inl ValueError)
          \<and> (map_of allS (py_str i) \<noteq> None
               \<and> (\<exists>sv \<in> snd ` set allS. str_linkedTo sv = py_str i) \<longrightarrow>
               resolve_cycle subs allCyclesWtt rc
                 = (if \<forall>j \<in> set (serviceIds rc). map_of allS (py_str j) \<noteq> None
                    then Inr (rc\<lparr>servicePath :=
                                   Some (map (\<lambda>j. the (map_of allS (py_str j))) (serviceIds rc))\<rparr>,
                              status rc = INVALID)
                    else Inl ValueError)))"
proof -
  have m: "match_paths rc allCyclesWtt = Inr rc"
    using ids nomatch by (rule match_paths_none)
  have r: "resolve_cycle subs allCyclesWtt rc
             = (case fixPath subs rc of
                  Inl e \<Rightarrow> Inl e
                | Inr (rc2, fixedPath) \<Rightarrow>
                    Inr (rc2\<lparr>servicePath := fixedPath\<rparr>, status rc2 = INVALID))"
    using m fresh ids some_chain by (simp add: resolve_cycle_def)
  have a: "undefinedIds rc \<noteq> [] \<Longrightarrow>
            resolve_cycle subs allCyclesWtt rc
              = Inr (rc\<lparr>status := INVALID, servicePath := Some []\<rparr>, True)"
    using ids by (simp add: r fixPath_def)
  have a': "undefinedIds rc \<noteq> [] \<Longrightarrow> resolve_cycles subs allCyclesWtt [rc] = Inr []"
    using a by (simp add: resolve_cycles_def)
  have b: "\<And>allS. undefinedIds rc = [] \<Longrightarrow> make_allServices subs = Inr allS \<Longrightarrow>
             map_of allS (py_str i) = None \<Longrightarrow>
             resolve_cycle subs allCyclesWtt rc = Inl ValueError"
    using ids by (simp add: r fixPath_def)
  have c: "\<And>allS. undefinedIds rc = [] \<Longrightarrow> make_allServices subs = Inr allS \<Longrightarrow>
             map_of allS (py_str i) \<noteq> None \<Longrightarrow>
             \<exists>sv \<in> snd ` set allS. str_linkedTo sv = py_str i \<Longrightarrow>
             resolve_cycle subs allCyclesWtt rc
                 = (if \<forall>j \<in> set (serviceIds rc). map_of allS (py_str j) \<noteq> None
                    then Inr (rc\<lparr>servicePath :=
                                   Some (map (\<lambda>j. the (map_of allS (py_str j))) (serviceIds rc))\<rparr>,
                              status rc = INVALID)
                    else Inl ValueError)"
  proof -
    fix allS
    assume u: "undefinedIds rc = []" and d: "make_allServices subs = Inr allS"
      and k: "map_of allS (py_str i) \<noteq> None"
      and l: "\<exists>sv \<in> snd ` set allS. str_linkedTo sv = py_str i"
    from l have l': "\<exists>sv \<in> snd ` set allS. py_str i = str_linkedTo sv" by metis
    from k obtain s where s: "map_of allS (py_str i) = Some s" by blast
    have "fixPath subs rc
            = (case rebuild_path allS (serviceIds rc) of
                 Inl e \<Rightarrow> Inl e
               | Inr path \<Rightarrow> Inr (rc, Some path))"
      unfolding fixPath_def using ids u d s l' by simp
    then show "resolve_cycle subs allCyclesWtt rc
                 = (if \<forall>j \<in> set (serviceIds rc). map_of allS (py_str j) \<noteq> None
                    then Inr (rc\<lparr>servicePath :=
                                   Some (map (\<lambda>j. the (map_of allS (py_str j))) (serviceIds rc))\<rparr>,
                              status rc = INVALID)
                    else Inl ValueError)"
      by (simp add: r rebuild_path_eq)
  qed
  show ?thesis using a a' b c by blast
qed

theorem resolve_cycle_unmatched_stub_witness:
  "resolve_cycle
     [service_of (IntId 93001) (Some ''93002''), service_of (IntId 93002) (Some ''93003''),
      service_of (IntId 93003) None]
     [[service_of (IntId 93001) (Some ''93002''), service_of (IntId 93002) (Some ''93003''),
       service_of (IntId 93003) None]]
     (stub_of ''X'' [IntId 93002, IntId 93003])
   = Inr ((stub_of ''X'' [IntId 93002, IntId 93003])
            \<lparr>servicePath := Some [service_of (IntId 93002) (Some ''93003''),
                                   service_of (IntId 93003) None]\<rparr>, False)
   \<and> resolve_cycles
       [service_of (IntId 93001) (Some ''93002''), service_of (IntId 93002) None]
       [[service_of (IntId 93001) (Some ''93002''), service_of (IntId 93002) None]]
       [(stub_of ''Y'' [IntId 93007])\<lparr>undefinedIds := [(''Y'', IntId 93007)]\<rparr>]
     = Inr []"
proof -
  let ?A = "service_of (IntId 93001) (Some ''93002'')"
  let ?B = "service_of (IntId 93002) (Some ''93003'')"
  let ?C = "service_of (IntId 93003) None"
  let ?rc = "stub_of ''X'' [IntId 93002, IntId 93003] :: Service RakeCycle"
  let ?allS = "[(''93001'', ?A), (''93002'', ?B), (''93003'', ?C)]"
  have ids: "serviceIds ?rc = IntId 93002 # [IntId 93003]"
    by (simp add: stub_of_def RakeCycle_init_def)
  have fresh: "servicePath ?rc = None" by (simp add: stub_of_def RakeCycle_init_def)
  have ne: "[[?A, ?B, ?C]] \<noteq> []" by simp
  have nomatch: "\<forall>path \<in> set [[?A, ?B, ?C]]. path \<noteq> [] \<and> serviceId (hd path) \<noteq> []
                    \<and> py_str (IntId 93002) \<noteq> py_str (hd (serviceId (hd path)))"
    by (simp add: service_of_def Service_init_def str_int_examples)
  have u: "undefinedIds ?rc = []" by (simp add: stub_of_def RakeCycle_init_def)
  have d: "make_allServices [?A, ?B, ?C] = Inr ?allS"
    by (simp add: make_allServices_def service_of_def Service_init_def str_int_examples)
  have k: "map_of ?allS (py_str (IntId 93002)) \<noteq> None"
    by (simp add: str_int_examples)
  have l: "\<exists>sv \<in> snd ` set ?allS. str_linkedTo sv = py_str (IntId 93002)"
    by (simp add: str_int_examples str_linkedTo_def service_of_def Service_init_def)
  have all: "\<forall>j \<in> set (serviceIds ?rc). map_of ?allS (py_str j) \<noteq> None"
    by (simp add: stub_of_def RakeCycle_init_def str_int_examples)
  from resolve_cycle_unmatched_stub[OF ids fresh ne nomatch, of "[?A, ?B, ?C]"] u d k l
  have "resolve_cycle [?A, ?B, ?C] [[?A, ?B, ?C]] ?rc
          = (if \<forall>j \<in> set (serviceIds ?rc). map_of ?allS (py_str j) \<noteq> None
             then Inr (?rc\<lparr>servicePath :=
                            Some (map (\<lambda>j. the (map_of ?allS (py_str j))) (serviceIds ?rc))\<rparr>,
                       status ?rc = INVALID)
             else Inl ValueError)"
    by blast
  then have first: "resolve_cycle [?A, ?B, ?C] [[?A, ?B, ?C]] ?rc
          = Inr (?rc\<lparr>servicePath := Some [?B, ?C]\<rparr>, False)"
    using all by (simp add: stub_of_def RakeCycle_init_def str_int_examples)
  let ?rc2 = "(stub_of ''Y'' [IntId 93007])\<lparr>undefinedIds := [(''Y'', IntId 93007)]\<rparr>
                :: Service RakeCycle"
  have ids2: "serviceIds ?rc2 = IntId 93007 # []" by (simp add: stub_of_def RakeCycle_init_def)
  have fresh2: "servicePath ?rc2 = None" by (simp add: stub_of_def RakeCycle_init_def)
  let ?B2 = "service_of (IntId 93002) None"
  have ne2: "[[?A, ?B2]] \<noteq> []" by simp
  have nomatch2: "\<forall>path \<in> set [[?A, ?B2]]. path \<noteq> [] \<and> serviceId (hd path) \<noteq> []
                    \<and> py_str (IntId 93007) \<noteq> py_str (hd (serviceId (hd path)))"
    by (simp add: service_of_def Service_init_def str_int_examples)
  have u2: "undefinedIds ?rc2 \<noteq> []" by simp
  from resolve_cycle_unmatched_stub[OF ids2 fresh2 ne2 nomatch2, of "[?A, ?B2]"] u2
  have second: "resolve_cycles [?A, ?B2] [[?A, ?B2]] [?rc2] = Inr []" by blast
  show ?thesis using first second by simp
qed

section \<open>Loops over the store\<close>

lemma heap_loop_other:
  "heap_loop f h as = Inr h' \<Longrightarrow> a \<notin> set as \<Longrightarrow> h' a = h a"
proof (induction as arbitrary: h)
  case Nil
  then show ?case by simp
next
  case (Cons b as)
  from Cons.prems obtain s where s: "f (h b) = Inr s" "heap_loop f (h(b := s)) as = Inr h'"
    by (auto split: sum.splits)
  from Cons.IH[OF s(2)] Cons.prems(2) show ?case by simp
qed

text \<open>
  When a second pass over an object changes nothing, an address that occurs in the list
  (once or more) ends with the result of one pass.
\<close>

lemma heap_loop_at:
  assumes idem: "\<And>s s'. f s = Inr s' \<Longrightarrow> f s' = Inr s'"
    and "heap_loop f h as = Inr h'" "a \<in> set as"
  shows "f (h a) = Inr (h' a)"
  using assms(2,3)
proof (induction as arbitrary: h)
  case Nil
  then show ?case by simp
next
  case (Cons b as)
  from Cons.prems obtain s where s: "f (h b) = Inr s" "heap_loop f (h(b := s)) as = Inr h'"
    by (auto split: sum.splits)
  show ?case
  proof (cases "a = b")
    case True
    show ?thesis
    proof (cases "a \<in> set as")
      case in_rest: True
      from Cons.IH[OF s(2) in_rest] True have "f s = Inr (h' a)" by simp
      moreover have "f s = Inr s" using s(1) by (rule idem)
      ultimately show ?thesis using s(1) True by simp
    next
      case False
      from heap_loop_other[OF s(2) False] True s(1) show ?thesis by simp
    qed
  next
    case False
    with Cons.prems(2) have "a \<in> set as" by simp
    from Cons.IH[OF s(2) this] False show ?thesis by simp
  qed
qed

lemma heap_loop_total:
  assumes "\<And>s. \<exists>s'. f s = Inr s'"
  shows "\<exists>h'. heap_loop f h as = Inr h'"
proof (induction as arbitrary: h)
  case Nil
  show ?case by simp
next
  case (Cons b as)
  from assms obtain s where s: "f (h b) = Inr s" by blast
  from Cons.IH obtain h' where "heap_loop f (h(b := s)) as = Inr h'" by blast
  with s show ?case by auto
qed

section \<open>STATION mode\<close>

lemma checkACConstraint_render:
  "render (checkACConstraint svc qq)
     = (render svc \<and> ((ac qq = None \<or> ac qq = Some []) \<or> ac_allows (ac qq) (needsACRake svc)))"
  by (auto simp: checkACConstraint_def ac_allows_def split: option.splits)

lemma checkACConstraint_fields:
  "events (checkACConstraint svc qq) = events svc"
  "needsACRake (checkACConstraint svc qq) = needsACRake svc"
  by (auto simp: checkACConstraint_def split: option.splits)

lemma ac_allows_empty: "ac_allows (Some []) b" "ac_allows None b"
  by (simp_all add: ac_allows_def)

lemma station_event_pass_eq:
  "station_event_pass w e
     = e\<lparr>render := (case atTime e of None \<Rightarrow> False | Some t \<Rightarrow> fst w \<le> t \<and> t \<le> snd w)\<rparr>"
  by (auto simp: station_event_pass_def in_period_def split: option.splits)

lemma station_event_pass_idem:
  "station_event_pass w (station_event_pass w e) = station_event_pass w e"
  by (simp add: station_event_pass_def split: option.splits)

lemma station_pass_result:
  "station_pass qq w s = Inr s' \<Longrightarrow>
     events s' = map (station_event_pass w) (events s)
   \<and> needsACRake s' = needsACRake s
   \<and> render s' = (events s \<noteq> [] \<and> ac_allows (ac qq) (needsACRake s))"
  using ac_allows_empty
  by (auto simp: station_pass_def checkACConstraint_render checkACConstraint_fields
      split: if_splits)

lemma checkACConstraint_cases:
  "checkACConstraint svc qq = svc \<or> checkACConstraint svc qq = svc\<lparr>render := False\<rparr>"
  by (auto simp: checkACConstraint_def split: option.splits)

lemma checkACConstraint_reset:
  "checkACConstraint (svc\<lparr>render := True\<rparr>) qq
     = svc\<lparr>render := render (checkACConstraint (svc\<lparr>render := True\<rparr>) qq)\<rparr>"
  using checkACConstraint_cases[of "svc\<lparr>render := True\<rparr>" qq] by auto

lemma station_pass_idem:
  assumes "station_pass qq w s = Inr s'"
  shows "station_pass qq w s' = Inr s'"
proof (cases "events s = []")
  case True
  with assms show ?thesis by (auto simp: station_pass_def)
next
  case False
  let ?t = "s\<lparr>render := True, events := map (station_event_pass w) (events s)\<rparr>"
  have s': "s' = checkACConstraint ?t qq" using assms False by (simp add: station_pass_def)
  have ev: "events s' = map (station_event_pass w) (events s)"
    by (simp add: s' checkACConstraint_fields)
  from checkACConstraint_cases[of ?t qq]
  have reset: "s'\<lparr>render := True, events := map (station_event_pass w) (events s')\<rparr> = ?t"
    unfolding s'[symmetric] by (auto simp: ev station_event_pass_idem)
  have "events s' \<noteq> []" using ev False by simp
  then have "station_pass qq w s'
               = Inr (checkACConstraint
                        (s'\<lparr>render := True, events := map (station_event_pass w) (events s')\<rparr>) qq)"
    by (simp add: station_pass_def)
  then show ?thesis using reset s' by simp
qed

lemma station_pass_total: "\<exists>s'. station_pass qq w s = Inr s'"
  by (simp add: station_pass_def)

text \<open>
  Claim C6. A STATION-mode pass over a query with a time window returns, and afterwards
  every rake cycle is visible (and otherwise unchanged); every event of every suburban
  service is visible exactly when its time is not None and lies inside the closed window;
  and a suburban service is visible exactly when it has events and the AC constraint of the
  query admits it: the window and the station fields of the query play no part in it.
\<close>

theorem apply_station_filters_visibility:
  assumes "inTimePeriod qq = Some w"
  shows "\<exists>wtt'. apply_station_filters wtt qq = Inr wtt'
           \<and> rakecycles wtt' = map (\<lambda>rc. rc\<lparr>render := True\<rparr>) (rakecycles wtt)
           \<and> (\<forall>a \<in> set (suburbanServices wtt).
                 events (heap wtt' a)
                   = map (\<lambda>e. e\<lparr>render := (case atTime e of
                                               None \<Rightarrow> False
                                             | Some t \<Rightarrow> fst w \<le> t \<and> t \<le> snd w)\<rparr>)
                         (events (heap wtt a))
               \<and> render (heap wtt' a)
                   = (events (heap wtt a) \<noteq> [] \<and> ac_allows (ac qq) (needsACRake (heap wtt a))))"
proof -
  from heap_loop_total[of "station_pass qq w", OF station_pass_total]
  obtain h' where h': "heap_loop (station_pass qq w) (heap wtt) (suburbanServices wtt) = Inr h'"
    by blast
  let ?wtt' = "wtt\<lparr>heap := h', rakecycles := map (\<lambda>rc. rc\<lparr>render := True\<rparr>) (rakecycles wtt)\<rparr>"
  have r: "apply_station_filters wtt qq = Inr ?wtt'"
    using assms h' by (simp add: apply_station_filters_def)
  have "\<forall>a \<in> set (suburbanServices wtt).
          events (h' a)
            = map (\<lambda>e. e\<lparr>render := (case atTime e of
                                        None \<Rightarrow> False
                                      | Some t \<Rightarrow> fst w \<le> t \<and> t \<le> snd w)\<rparr>)
                  (events (heap wtt a))
        \<and> render (h' a)
            = (events (heap wtt a) \<noteq> [] \<and> ac_allows (ac qq) (needsACRake (heap wtt a)))"
  proof
    fix a assume a: "a \<in> set (suburbanServices wtt)"
    have "station_pass qq w (heap wtt a) = Inr (h' a)"
      using station_pass_idem h' a by (rule heap_loop_at)
    from station_pass_result[OF this]
    show "events (h' a)
            = map (\<lambda>e. e\<lparr>render := (case atTime e of
                                        None \<Rightarrow> False
                                      | Some t \<Rightarrow> fst w \<le> t \<and> t \<le> snd w)\<rparr>)
                  (events (heap wtt a))
        \<and> render (h' a)
            = (events (heap wtt a) \<noteq> [] \<and> ac_allows (ac qq) (needsACRake (heap wtt a)))"
      by (simp add: station_event_pass_eq)
  qed
  with r show ?thesis by simp
qed

text \<open>
  The example of the specification: with the window \<open>[600, 660]\<close>, of the events at 500 and
  620 only the one at 500 becomes invisible; the service and the rake cycle stay visible.
\<close>

theorem apply_station_filters_visibility_witness:
  "\<exists>wtt'. apply_station_filters
            \<lparr>heap = (\<lambda>_. Service_init)
                (0 := Service_init\<lparr>serviceId := [IntId 93001],
                        events := [\<lparr>render = True, atStation = ''DADAR'', atTime = Some 500\<rparr>,
                                   \<lparr>render = True, atStation = ''BANDRA'', atTime = Some 620\<rparr>]\<rparr>),
             suburbanServices = [0],
             rakecycles = [(stub_of ''A'' [IntId 93001])\<lparr>servicePath := Some [0]\<rparr>]\<rparr>
            (FilterQuery_default\<lparr>qtype := Some STATION, inTimePeriod := Some (600, 660)\<rparr>)
          = Inr wtt'
     \<and> map render (rakecycles wtt') = [True]
     \<and> map render (events (heap wtt' 0)) = [False, True]
     \<and> render (heap wtt' 0)"
proof -
  let ?wtt = "\<lparr>heap = (\<lambda>_. Service_init)
                (0 := Service_init\<lparr>serviceId := [IntId 93001],
                        events := [\<lparr>render = True, atStation = ''DADAR'', atTime = Some 500\<rparr>,
                                   \<lparr>render = True, atStation = ''BANDRA'', atTime = Some 620\<rparr>]\<rparr>),
             suburbanServices = [0],
             rakecycles = [(stub_of ''A'' [IntId 93001])\<lparr>servicePath := Some [0]\<rparr>]\<rparr>"
  let ?qq = "FilterQuery_default\<lparr>qtype := Some STATION, inTimePeriod := Some (600, 660)\<rparr>"
  have w: "inTimePeriod ?qq = Some (600, 660)" by simp
  show ?thesis
    using apply_station_filters_visibility[OF w, of ?wtt]
    by (auto simp: Service_init_def FilterQuery_default_def ac_allows_def)
qed

section \<open>SERVICE mode\<close>

lemma stnMapTimes_last:
  assumes "stnMapTimes evs st \<noteq> []"
  shows "last (stnMapTimes evs st) = atTime (last (filter (\<lambda>e. atStation e = st) evs))"
  using assms by (simp add: stnMapTimes_def last_map)

lemma last_time_ok_iff:
  "last_time_ok evs w st
     = (stnMapTimes evs st \<noteq> []
        \<and> (\<exists>t. last (stnMapTimes evs st) = Some t \<and> in_period w t))"
proof (cases "filter (\<lambda>e. atStation e = st) evs")
  case Nil
  then show ?thesis by (simp add: last_time_ok_def stnMapTimes_def)
next
  case (Cons e es)
  then have ne: "stnMapTimes evs st \<noteq> []" by (simp add: stnMapTimes_def)
  show ?thesis
    using Cons ne stnMapTimes_last[OF ne]
    by (auto simp: last_time_ok_def in_period_def split: option.splits)
qed

lemma passing_loop_result:
  assumes "passing_loop svc qq sts = Inr svc'" "inTimePeriod qq = Some w"
  shows "svc' = (if \<forall>st \<in> set sts. last_time_ok (events svc) w st then svc
                 else svc\<lparr>render := False\<rparr>)"
  using assms
proof (induction sts)
  case Nil
  then show ?case by simp
next
  case (Cons st sts)
  show ?case
  proof (cases "last_time_ok (events svc) w st")
    case True
    then have "passing_loop svc qq (st # sts) = passing_loop svc qq sts"
      using Cons.prems(2) by (auto simp: last_time_ok_iff)
    with Cons True show ?thesis by simp
  next
    case False
    then have "svc' = svc\<lparr>render := False\<rparr>"
      using Cons.prems by (auto simp: last_time_ok_iff split: if_splits option.splits)
    with False show ?thesis by simp
  qed
qed

lemma checkPassingThroughConstraint_result:
  assumes "checkPassingThroughConstraint svc qq = Inr svc'" "inTimePeriod qq = Some w"
  shows "svc' = (if \<forall>st \<in> set (passingThrough qq). last_time_ok (events svc) w (upper st)
                 then svc else svc\<lparr>render := False\<rparr>)"
proof (cases "passingThrough qq = []")
  case True
  with assms show ?thesis by (simp add: checkPassingThroughConstraint_def)
next
  case False
  with assms have "passing_loop svc qq (map upper (passingThrough qq)) = Inr svc'"
    by (simp add: checkPassingThroughConstraint_def)
  from passing_loop_result[OF this assms(2)] show ?thesis by simp
qed

lemma checkDirectionConstraint_cases:
  "checkDirectionConstraint svc qq = svc \<or> checkDirectionConstraint svc qq = svc\<lparr>render := False\<rparr>"
  by (auto simp: checkDirectionConstraint_def split: option.splits)

lemma check_terminal_cases:
  "check_terminal svc qq stn e = Inr svc' \<Longrightarrow> svc' = svc \<or> svc' = svc\<lparr>render := False\<rparr>"
  by (auto simp: check_terminal_def split: option.splits if_splits)

lemma checkStartStationConstraint_cases:
  "checkStartStationConstraint svc qq = Inr svc' \<Longrightarrow> svc' = svc \<or> svc' = svc\<lparr>render := False\<rparr>"
  by (auto simp: checkStartStationConstraint_def split: option.splits if_splits
      dest: check_terminal_cases)

lemma checkEndStationConstraint_cases:
  "checkEndStationConstraint svc qq = Inr svc' \<Longrightarrow> svc' = svc \<or> svc' = svc\<lparr>render := False\<rparr>"
  by (auto simp: checkEndStationConstraint_def split: option.splits if_splits
      dest: check_terminal_cases)

text \<open>
  After the five checks the service differs from the one they started with at most in
  \<open>render\<close>, and it is visible only if the passing-through check found every queried
  station's last event inside the window.
\<close>

lemma service_checks_result:
  assumes "service_checks qq s1 = Inr s'" "inTimePeriod qq = Some w"
  shows "(s' = s1 \<or> s' = s1\<lparr>render := False\<rparr>)
       \<and> (render s' \<longrightarrow> (\<forall>st \<in> set (passingThrough qq). last_time_ok (events s1) w (upper st)))"
proof -
  let ?s2 = "checkDirectionConstraint s1 qq"
  let ?s3 = "checkACConstraint ?s2 qq"
  from assms(1) obtain s4 s5 where
    s4: "checkStartStationConstraint ?s3 qq = Inr s4"
    and s5: "checkEndStationConstraint s4 qq = Inr s5"
    and s': "checkPassingThroughConstraint s5 qq = Inr s'"
    by (auto simp: service_checks_def Let_def split: sum.splits)
  have c2: "?s2 = s1 \<or> ?s2 = s1\<lparr>render := False\<rparr>" by (rule checkDirectionConstraint_cases)
  have c3: "?s3 = ?s2 \<or> ?s3 = ?s2\<lparr>render := False\<rparr>" by (rule checkACConstraint_cases)
  have c4: "s4 = ?s3 \<or> s4 = ?s3\<lparr>render := False\<rparr>"
    using s4 by (rule checkStartStationConstraint_cases)
  have c5: "s5 = s4 \<or> s5 = s4\<lparr>render := False\<rparr>"
    using s5 by (rule checkEndStationConstraint_cases)
  from c2 c3 c4 c5 have five: "s5 = s1 \<or> s5 = s1\<lparr>render := False\<rparr>" by auto
  then have ev: "events s5 = events s1" by auto
  from checkPassingThroughConstraint_result[OF s' assms(2)]
  have r: "s' = (if \<forall>st \<in> set (passingThrough qq). last_time_ok (events s1) w (upper st)
                 then s5 else s5\<lparr>render := False\<rparr>)"
    by (simp add: ev)
  show ?thesis using five r by auto
qed







subsection \<open>When the pass returns\<close>

lemma heap_loop_total_inv:
  assumes step: "\<And>s. Q s \<Longrightarrow> \<exists>s'. f s = Inr s' \<and> Q s'"
    and "\<forall>a \<in> set as. Q (h a)"
  shows "\<exists>h'. heap_loop f h as = Inr h'"
  using assms(2)
proof (induction as arbitrary: h)
  case Nil
  show ?case by simp
next
  case (Cons b as)
  from Cons.prems have "Q (h b)" by simp
  from step[OF this] obtain s where s: "f (h b) = Inr s" "Q s" by blast
  have "\<forall>a \<in> set as. Q ((h(b := s)) a)" using Cons.prems s(2) by simp
  from Cons.IH[OF this] obtain h' where "heap_loop f (h(b := s)) as = Inr h'" by blast
  with s(1) show ?case by auto
qed

lemma passing_loop_returns:
  assumes "inTimePeriod qq = Some w" "\<forall>e \<in> set (events svc). atTime e \<noteq> None"
  shows "\<exists>svc'. passing_loop svc qq sts = Inr svc'"
proof (induction sts)
  case Nil
  show ?case by simp
next
  case (Cons st sts)
  show ?case
  proof (cases "stnMapTimes (events svc) st = []")
    case True
    then show ?thesis by simp
  next
    case False
    then have "last (stnMapTimes (events svc) st) \<in> set (stnMapTimes (events svc) st)"
      by (rule last_in_set)
    then have "last (stnMapTimes (events svc) st) \<noteq> None"
      using assms(2) by (auto simp: stnMapTimes_def)
    then obtain t where "last (stnMapTimes (events svc) st) = Some t" by blast
    with False assms(1) Cons show ?thesis by simp
  qed
qed

lemma check_terminal_returns:
  assumes "inTimePeriod qq = Some w" "atTime e \<noteq> None"
  shows "\<exists>svc'. check_terminal svc qq stn e = Inr svc'"
  using assms by (auto simp: check_terminal_def split: option.splits)

lemma service_checks_returns:
  assumes w: "inTimePeriod qq = Some w" and ne: "events s1 \<noteq> []"
    and t: "\<forall>e \<in> set (events s1). atTime e \<noteq> None"
  shows "\<exists>s'. service_checks qq s1 = Inr s'"
proof -
  let ?s2 = "checkDirectionConstraint s1 qq"
  let ?s3 = "checkACConstraint ?s2 qq"
  have e3: "events ?s3 = events s1"
    using checkDirectionConstraint_cases[of s1 qq] checkACConstraint_cases[of ?s2 qq] by auto
  have hd3: "atTime (hd (events ?s3)) \<noteq> None" and last3: "atTime (last (events ?s3)) \<noteq> None"
    using ne t by (simp_all add: e3)
  have "\<exists>s4. checkStartStationConstraint ?s3 qq = Inr s4"
    using check_terminal_returns[OF w hd3] ne
    by (auto simp: checkStartStationConstraint_def e3 split: option.splits)
  then obtain s4 where s4: "checkStartStationConstraint ?s3 qq = Inr s4" by blast
  from checkStartStationConstraint_cases[OF s4] have e4: "events s4 = events s1"
    using e3 by auto
  have "atTime (last (events s4)) \<noteq> None" using ne t by (simp add: e4)
  from check_terminal_returns[OF w this]
  have "\<exists>s5. checkEndStationConstraint s4 qq = Inr s5"
    using ne by (auto simp: checkEndStationConstraint_def e4 split: option.splits)
  then obtain s5 where s5: "checkEndStationConstraint s4 qq = Inr s5" by blast
  from checkEndStationConstraint_cases[OF s5] have e5: "events s5 = events s1"
    using e4 by auto
  have "\<exists>s'. checkPassingThroughConstraint s5 qq = Inr s'"
    using passing_loop_returns[OF w, of s5] t
    by (simp add: checkPassingThroughConstraint_def e5 Let_def)
  then show ?thesis using s4 s5 by (auto simp: service_checks_def Let_def)
qed

text \<open>
  With a time window in the query and no event without a time, the SERVICE-mode pass raises
  nothing.
\<close>

lemma apply_service_filters_returns:
  assumes w: "inTimePeriod qq = Some w"
    and t: "\<forall>a \<in> set (suburbanServices wtt). \<forall>e \<in> set (events (heap wtt a)). atTime e \<noteq> None"
  shows "\<exists>wtt'. apply_service_filters wtt qq = Inr wtt'"
proof -
  let ?Q = "\<lambda>s :: Service. \<forall>e \<in> set (events s). atTime e \<noteq> None"
  have step: "\<And>s. ?Q s \<Longrightarrow> \<exists>s'. service_pass qq s = Inr s' \<and> ?Q s'"
  proof -
    fix s :: Service assume q: "?Q s"
    show "\<exists>s'. service_pass qq s = Inr s' \<and> ?Q s'"
    proof (cases "events s = []")
      case True
      then show ?thesis by (simp add: service_pass_def)
    next
      case False
      let ?s1 = "s\<lparr>render := True, events := map (\<lambda>ev. ev\<lparr>render := True\<rparr>) (events s)\<rparr>"
      have ne: "events ?s1 \<noteq> []" using False by simp
      have t1: "\<forall>e \<in> set (events ?s1). atTime e \<noteq> None" using q by auto
      from service_checks_returns[OF w ne t1] obtain s' where
        s': "service_checks qq ?s1 = Inr s'" by blast
      from service_checks_result[OF s' w] have "events s' = events ?s1" by auto
      with t1 have "?Q s'" by simp
      with s' False show ?thesis by (simp add: service_pass_def)
    qed
  qed
  from heap_loop_total_inv[of ?Q "service_pass qq", OF step] t
  obtain h' where "heap_loop (service_pass qq) (heap wtt) (suburbanServices wtt) = Inr h'"
    by blast
  then show ?thesis by (simp add: apply_service_filters_def)
qed

section \<open>RAKELINK mode\<close>

lemma cycle_loop_map:
  "(\<forall>x \<in> set xs. f x = Inr (g x)) \<Longrightarrow> cycle_loop f xs = Inr (map g xs)"
  by (induction xs) simp_all

lemma stations_of_Cons:
  "stations_of (e # es)
     = (if atStation e = [] then stations_of es
        else insert (upper (strip (atStation e))) (stations_of es))"
  by (auto simp: stations_of_def)

lemma seen_loop_props:
  assumes "distinct seen" "set seen \<subseteq> set selected"
  shows "distinct (seen_loop selected seen es)
       \<and> set (seen_loop selected seen es) \<subseteq> set selected
       \<and> set (seen_loop selected seen es) \<subseteq> set seen \<union> stations_of es
       \<and> (length (seen_loop selected seen es) = length selected
            \<or> set (seen_loop selected seen es) = set seen \<union> (stations_of es \<inter> set selected))"
  using assms
proof (induction es arbitrary: seen)
  case Nil
  then show ?case by (auto simp: stations_of_def)
next
  case (Cons e es)
  show ?case
  proof (cases "atStation e = []")
    case True
    with Cons show ?thesis by (simp add: stations_of_Cons)
  next
    case False
    let ?st = "upper (strip (atStation e))"
    let ?seen' = "if ?st \<in> set selected then List.insert ?st seen else seen"
    have d: "distinct ?seen'" using Cons.prems(1) by simp
    have s: "set ?seen' \<subseteq> set selected" using Cons.prems(2) by auto
    have s2: "set ?seen' = set seen \<union> ({?st} \<inter> set selected)" by auto
    show ?thesis
    proof (cases "length ?seen' = length selected")
      case True
      then have "seen_loop selected seen (e # es) = ?seen'"
        using False by (simp add: Let_def)
      then show ?thesis using d s s2 True False by (auto simp: stations_of_Cons)
    next
      case ne: False
      then have eq: "seen_loop selected seen (e # es) = seen_loop selected ?seen' es"
        using False by (simp add: Let_def)
      from Cons.IH[OF d s] show ?thesis
        unfolding eq using False s2 by (auto simp: stations_of_Cons)
    qed
  qed
qed

lemma full_seen_iff:
  assumes "distinct r" "set r \<subseteq> set selected" "set r \<subseteq> S"
    and "length r = length selected \<or> set r = S \<inter> set selected"
  shows "(\<not> length r < length selected) = (distinct selected \<and> set selected \<subseteq> S)"
proof
  assume "\<not> length r < length selected"
  then have ge: "length selected \<le> length r" by simp
  have "card (set r) \<le> card (set selected)" using assms(2) by (simp add: card_mono)
  moreover have "card (set r) = length r" using assms(1) by (simp add: distinct_card)
  moreover have "card (set selected) \<le> length selected" by (rule card_length)
  ultimately have c: "card (set selected) = length selected" "card (set r) = card (set selected)"
    using ge by auto
  from c(1) have "distinct selected" by (simp add: card_distinct)
  moreover have "set r = set selected"
    using assms(2) c(2) by (simp add: card_subset_eq)
  ultimately show "distinct selected \<and> set selected \<subseteq> S" using assms(3) by simp
next
  assume a: "distinct selected \<and> set selected \<subseteq> S"
  from assms(4) show "\<not> length r < length selected"
  proof
    assume "length r = length selected" then show ?thesis by simp
  next
    assume "set r = S \<inter> set selected"
    then have "set r = set selected" using a by auto
    then have "length r = length selected"
      using a assms(1) by (metis distinct_card)
    then show ?thesis by simp
  qed
qed

lemma seen_loop_full:
  "(\<not> length (seen_loop selected [] es) < length selected)
     = (distinct selected \<and> set selected \<subseteq> stations_of es)"
proof -
  from seen_loop_props[of "[]" selected es]
  have p: "distinct (seen_loop selected [] es)"
    "set (seen_loop selected [] es) \<subseteq> set selected"
    "set (seen_loop selected [] es) \<subseteq> stations_of es"
    "length (seen_loop selected [] es) = length selected
       \<or> set (seen_loop selected [] es) = stations_of es \<inter> set selected"
    by simp_all
  from full_seen_iff[OF p] show ?thesis .
qed

lemma window_events_set:
  "set (window_events h qq p) = {e \<in> set (cycle_events h p). event_in_window qq e}"
  by (auto simp: window_events_def cycle_events_def event_in_window_def in_period_def Let_def
      split: option.splits)

lemma stations_of_window:
  "(set (map upper pt) \<subseteq> stations_of (window_events h qq p))
     = (\<forall>st \<in> set pt. \<exists>e \<in> set (cycle_events h p).
          event_in_window qq e \<and> atStation e \<noteq> [] \<and> upper (strip (atStation e)) = upper st)"
proof
  assume l: "set (map upper pt) \<subseteq> stations_of (window_events h qq p)"
  show "\<forall>st \<in> set pt. \<exists>e \<in> set (cycle_events h p).
          event_in_window qq e \<and> atStation e \<noteq> [] \<and> upper (strip (atStation e)) = upper st"
  proof
    fix st assume "st \<in> set pt"
    then have "upper st \<in> stations_of (window_events h qq p)" using l by auto
    then obtain e where e: "e \<in> set (window_events h qq p)" "atStation e \<noteq> []"
      "upper st = upper (strip (atStation e))"
      unfolding stations_of_def by blast
    from e(1) have "e \<in> set (cycle_events h p)" "event_in_window qq e"
      by (simp_all add: window_events_set)
    with e(2,3) show "\<exists>e \<in> set (cycle_events h p).
          event_in_window qq e \<and> atStation e \<noteq> [] \<and> upper (strip (atStation e)) = upper st"
      by auto
  qed
next
  assume r: "\<forall>st \<in> set pt. \<exists>e \<in> set (cycle_events h p).
          event_in_window qq e \<and> atStation e \<noteq> [] \<and> upper (strip (atStation e)) = upper st"
  show "set (map upper pt) \<subseteq> stations_of (window_events h qq p)"
  proof
    fix x assume "x \<in> set (map upper pt)"
    then obtain st where st: "st \<in> set pt" "x = upper st" by auto
    from r st(1) obtain e where e: "e \<in> set (cycle_events h p)" "event_in_window qq e"
      "atStation e \<noteq> []" "upper (strip (atStation e)) = upper st"
      by blast
    from e(1,2) have "e \<in> set (window_events h qq p)" by (simp add: window_events_set)
    with e(3,4) st(2) show "x \<in> stations_of (window_events h qq p)"
      unfolding stations_of_def by force
  qed
qed

text \<open>What each of the three passes does to one rake cycle.\<close>

lemma terminal_pass_result:
  assumes "\<And>p. servicePath rc = Some p \<Longrightarrow> p \<noteq> [] \<Longrightarrow>
             events (h (hd p)) \<noteq> [] \<and> events (h (last p)) \<noteq> []"
  shows "terminal_pass h (startStation qq) (endStation qq) rc
           = Inr (rc\<lparr>render := terminal_ok h qq rc\<rparr>)"
proof (cases "servicePath rc")
  case None
  then show ?thesis by (simp add: terminal_pass_def terminal_ok_def)
next
  case (Some p)
  show ?thesis
  proof (cases "p = []")
    case True
    with Some show ?thesis by (simp add: terminal_pass_def terminal_ok_def)
  next
    case False
    from assms[OF Some False] have ev: "events (h (hd p)) \<noteq> []" "events (h (last p)) \<noteq> []"
      by simp_all
    have "terminal_ok h qq rc
            = ((falsy (startStation qq)
                 \<or> atStation (hd (events (h (hd p)))) = upper (the (startStation qq)))
               \<and> (falsy (endStation qq)
                 \<or> atStation (last (events (h (last p)))) = upper (the (endStation qq))))"
      using Some False by (simp add: terminal_ok_def)
    then show ?thesis
      using Some False ev by (auto simp: terminal_pass_def Let_def)
  qed
qed

lemma passing_pass_result:
  "passing_pass h qq rc = (if passing_ok h qq rc then rc else rc\<lparr>render := False\<rparr>)"
proof (cases "servicePath rc")
  case None
  then show ?thesis by (simp add: passing_pass_def passing_ok_def)
next
  case (Some p)
  show ?thesis
  proof (cases "p = []")
    case True
    with Some show ?thesis by (simp add: passing_pass_def passing_ok_def)
  next
    case False
    have "(\<not> length (seen_loop (map upper (passingThrough qq)) [] (window_events h qq p))
              < length (map upper (passingThrough qq)))
            = (distinct (map upper (passingThrough qq))
               \<and> (\<forall>st \<in> set (passingThrough qq).
                    \<exists>e \<in> set (cycle_events h p).
                      event_in_window qq e \<and> atStation e \<noteq> []
                    \<and> upper (strip (atStation e)) = upper st))"
      unfolding seen_loop_full stations_of_window ..
    then have k: "passing_ok h qq rc
        = (\<not> length (seen_loop (map upper (passingThrough qq)) [] (window_events h qq p))
              < length (passingThrough qq))"
      using Some False by (simp add: passing_ok_def)
    show ?thesis
      using Some False by (simp add: passing_pass_def Let_def k)
  qed
qed

lemma ac_pass_result:
  assumes "ac qq = Some mode" "mode \<noteq> ''all''"
  shows "ac_pass mode rc = (if rake_ok qq rc then rc else rc\<lparr>render := False\<rparr>)"
  using assms by (auto simp: ac_pass_def rake_ok_def ac_allows_def split: option.splits)

lemma link_visible_parts:
  "link_visible h qq rc = (terminal_ok h qq rc \<and> passing_ok h qq rc \<and> rake_ok qq rc)"
  by (cases "servicePath rc")
     (auto simp: link_visible_def terminal_ok_def passing_ok_def rake_ok_def)

lemma passing_ok_no_list:
  "passingThrough qq = [] \<Longrightarrow> terminal_ok h qq rc \<Longrightarrow> passing_ok h qq rc"
  by (cases "servicePath rc") (auto simp: terminal_ok_def passing_ok_def)

lemma apply_passing_through_filter_result:
  "apply_passing_through_filter h qq (map (\<lambda>rc. rc\<lparr>render := terminal_ok h qq rc\<rparr>) rcs)
     = map (\<lambda>rc. rc\<lparr>render := terminal_ok h qq rc \<and> passing_ok h qq rc\<rparr>) rcs"
proof (cases "passingThrough qq = []")
  case True
  have "\<And>rc. (terminal_ok h qq rc \<and> passing_ok h qq rc) = terminal_ok h qq rc"
    using passing_ok_no_list[OF True] by blast
  then show ?thesis using True by (simp add: apply_passing_through_filter_def)
next
  case False
  have "\<And>rc. passing_pass h qq (rc\<lparr>render := terminal_ok h qq rc\<rparr>)
              = rc\<lparr>render := terminal_ok h qq rc \<and> passing_ok h qq rc\<rparr>"
  proof -
    fix rc :: "nat RakeCycle"
    have same: "passing_ok h qq (rc\<lparr>render := terminal_ok h qq rc\<rparr>) = passing_ok h qq rc"
      by (simp add: passing_ok_def)
    show "passing_pass h qq (rc\<lparr>render := terminal_ok h qq rc\<rparr>)
              = rc\<lparr>render := terminal_ok h qq rc \<and> passing_ok h qq rc\<rparr>"
      unfolding passing_pass_result same by (cases "passing_ok h qq rc") simp_all
  qed
  then show ?thesis using False by (simp add: apply_passing_through_filter_def comp_def)
qed

lemma apply_ac_filter_result:
  "apply_ac_filter qq (map (\<lambda>rc. rc\<lparr>render := terminal_ok h qq rc \<and> passing_ok h qq rc\<rparr>) rcs)
     = map (\<lambda>rc. rc\<lparr>render := link_visible h qq rc\<rparr>) rcs"
proof (cases "ac qq = None \<or> ac qq = Some ''all''")
  case True
  then have "\<And>rc. rake_ok qq rc" by (auto simp: rake_ok_def)
  then have "\<And>rc. link_visible h qq rc = (terminal_ok h qq rc \<and> passing_ok h qq rc)"
    by (simp add: link_visible_parts)
  then show ?thesis using True by (auto simp: apply_ac_filter_def)
next
  case False
  then obtain mode where mode: "ac qq = Some mode" "mode \<noteq> ''all''" by auto
  have "\<And>rc. ac_pass mode (rc\<lparr>render := terminal_ok h qq rc \<and> passing_ok h qq rc\<rparr>)
              = rc\<lparr>render := link_visible h qq rc\<rparr>"
  proof -
    fix rc :: "nat RakeCycle"
    have same: "rake_ok qq (rc\<lparr>render := terminal_ok h qq rc \<and> passing_ok h qq rc\<rparr>) = rake_ok qq rc"
      by (simp add: rake_ok_def)
    show "ac_pass mode (rc\<lparr>render := terminal_ok h qq rc \<and> passing_ok h qq rc\<rparr>)
              = rc\<lparr>render := link_visible h qq rc\<rparr>"
      unfolding ac_pass_result[OF mode] same link_visible_parts
      by (cases "rake_ok qq rc") simp_all
  qed
  then show ?thesis using mode by (simp add: apply_ac_filter_def comp_def)
qed

text \<open>An event at time 0 never counts, even inside the window \<open>[0, 100]\<close>.\<close>

lemma apply_link_filters_zero_time:
  "map_sum id (\<lambda>wtt'. map render (rakecycles wtt'))
     (apply_link_filters
        \<lparr>heap = (\<lambda>_. Service_init)
            (0 := Service_init\<lparr>serviceId := [IntId 93001],
                    events := [\<lparr>render = True, atStation = ''DADAR'', atTime = Some 0\<rparr>]\<rparr>),
         suburbanServices = [0],
         rakecycles = [(stub_of ''A'' [IntId 93001])\<lparr>servicePath := Some [0]\<rparr>]\<rparr>
        (FilterQuery_default\<lparr>qtype := Some RAKELINK, passingThrough := [''DADAR''],
                             inTimePeriod := Some (0, 100)\<rparr>))
   = Inr [False]
   \<and> in_period (0, 100) 0"
  by (simp add: apply_link_filters_def apply_terminal_station_filters_def
      apply_passing_through_filter_def apply_ac_filter_def
      terminal_pass_def passing_pass_def window_events_def
      falsy_def Service_init_def FilterQuery_default_def stub_of_def RakeCycle_init_def
      in_period_def upper_def upper_char_def strip_def py_isspace_def Let_def)

text \<open>
  Claim C5 at a failing input. The cycle has one service with an event at \<open>DADAR\<close> at
  600. The query lists \<open>DADAR\<close> twice, with the window \<open>[590, 650]\<close> and no other
  constraint: the path is not empty, no start, end or AC constraint is set, and every
  station of the list has an event of the cycle inside the window, so the claim makes the
  cycle visible. The pass hides it: the number of distinct stations seen, 1, is compared
  with the length of the list, 2.
\<close>

theorem apply_link_filters_duplicate_stations:
  "map_sum id (\<lambda>wtt'. map render (rakecycles wtt'))
     (apply_link_filters
        \<lparr>heap = (\<lambda>_. Service_init)
            (0 := Service_init\<lparr>serviceId := [IntId 93001],
                    events := [\<lparr>render = True, atStation = ''DADAR'', atTime = Some 600\<rparr>]\<rparr>),
         suburbanServices = [0],
         rakecycles = [(stub_of ''A'' [IntId 93001])\<lparr>servicePath := Some [0]\<rparr>]\<rparr>
        (FilterQuery_default\<lparr>qtype := Some RAKELINK, passingThrough := [''DADAR'', ''DADAR''],
                             inTimePeriod := Some (590, 650)\<rparr>))
   = Inr [False]
   \<and> upper ''DADAR'' = ''DADAR'' \<and> strip ''DADAR'' = ''DADAR'' \<and> in_period (590, 650) 600"
  by (simp add: apply_link_filters_def apply_terminal_station_filters_def
      apply_passing_through_filter_def apply_ac_filter_def
      terminal_pass_def passing_pass_def window_events_def
      falsy_def Service_init_def FilterQuery_default_def stub_of_def RakeCycle_init_def
      in_period_def upper_def upper_char_def strip_def py_isspace_def Let_def)

text \<open>
  What a RAKELINK-mode pass computes on every input. If the first and the last service of
  every non-empty path have events (as they do after \<open>generateRakeCycles\<close>), the pass
  returns and changes only the flags of the rake cycles. A rake cycle is then visible if and
  only if (i) its path is not empty, (ii) the station of the first event of its first
  service is the upper-cased start-station constraint when one is set, and the station of
  the last event of its last service is the upper-cased end-station constraint when one is
  set, (iii) the upper-cased passing-through list names no station twice, and for every
  station in it at least one event of the cycle at that station counts for the window, and
  (iv) no AC constraint is set (None or \<open>all\<close>), or the cycle has a rake and the rake
  matches the constraint. For a list without repetition this is the visibility the
  documentation of the pass describes.
\<close>

theorem apply_link_filters_visibility:
  assumes "\<forall>rc \<in> set (rakecycles wtt). \<forall>p. servicePath rc = Some p \<and> p \<noteq> [] \<longrightarrow>
             events (heap wtt (hd p)) \<noteq> [] \<and> events (heap wtt (last p)) \<noteq> []"
  shows "\<exists>wtt'. apply_link_filters wtt qq = Inr wtt'
           \<and> heap wtt' = heap wtt \<and> suburbanServices wtt' = suburbanServices wtt
           \<and> rakecycles wtt'
               = map (\<lambda>rc. rc\<lparr>render := link_visible (heap wtt) qq rc\<rparr>) (rakecycles wtt)"
proof -
  let ?h = "heap wtt"
  have "\<forall>rc \<in> set (rakecycles wtt).
          terminal_pass ?h (startStation qq) (endStation qq) rc
            = Inr (rc\<lparr>render := terminal_ok ?h qq rc\<rparr>)"
  proof
    fix rc assume "rc \<in> set (rakecycles wtt)"
    with assms have "\<And>p. servicePath rc = Some p \<Longrightarrow> p \<noteq> [] \<Longrightarrow>
             events (?h (hd p)) \<noteq> [] \<and> events (?h (last p)) \<noteq> []"
      by blast
    then show "terminal_pass ?h (startStation qq) (endStation qq) rc
            = Inr (rc\<lparr>render := terminal_ok ?h qq rc\<rparr>)"
      by (rule terminal_pass_result)
  qed
  then have t: "apply_terminal_station_filters ?h (startStation qq) (endStation qq) (rakecycles wtt)
                  = Inr (map (\<lambda>rc. rc\<lparr>render := terminal_ok ?h qq rc\<rparr>) (rakecycles wtt))"
    unfolding apply_terminal_station_filters_def by (rule cycle_loop_map)
  have "apply_link_filters wtt qq
          = Inr (wtt\<lparr>rakecycles :=
                      map (\<lambda>rc. rc\<lparr>render := link_visible ?h qq rc\<rparr>) (rakecycles wtt)\<rparr>)"
    unfolding apply_link_filters_def t
    by (simp add: apply_passing_through_filter_result apply_ac_filter_result)
  then show ?thesis by simp
qed

theorem apply_link_filters_visibility_witness:
  "\<exists>wtt'. apply_link_filters
            \<lparr>heap = (\<lambda>_. Service_init)
                (0 := Service_init\<lparr>serviceId := [IntId 93001],
                        events := [\<lparr>render = True, atStation = ''CHURCHGATE'', atTime = Some 580\<rparr>,
                                   \<lparr>render = True, atStation = ''DADAR'', atTime = Some 600\<rparr>]\<rparr>),
             suburbanServices = [0],
             rakecycles = [(stub_of ''A'' [IntId 93001])
                             \<lparr>servicePath := Some [0], rake := Some (Rake_init 0)\<rparr>,
                           stub_of ''B'' [IntId 93002]]\<rparr>
            (FilterQuery_default\<lparr>qtype := Some RAKELINK, startStation := Some ''CHURCHGATE'',
                                 passingThrough := [''DADAR''], inTimePeriod := Some (590, 650),
                                 ac := Some ''nonac''\<rparr>)
          = Inr wtt'
     \<and> map render (rakecycles wtt') = [True, False]"
proof -
  let ?wtt = "\<lparr>heap = (\<lambda>_. Service_init)
                (0 := Service_init\<lparr>serviceId := [IntId 93001],
                        events := [\<lparr>render = True, atStation = ''CHURCHGATE'', atTime = Some 580\<rparr>,
                                   \<lparr>render = True, atStation = ''DADAR'', atTime = Some 600\<rparr>]\<rparr>),
             suburbanServices = [0],
             rakecycles = [(stub_of ''A'' [IntId 93001])
                             \<lparr>servicePath := Some [0], rake := Some (Rake_init 0)\<rparr>,
                           stub_of ''B'' [IntId 93002]]\<rparr>"
  let ?qq = "FilterQuery_default\<lparr>qtype := Some RAKELINK, startStation := Some ''CHURCHGATE'',
                                 passingThrough := [''DADAR''], inTimePeriod := Some (590, 650),
                                 ac := Some ''nonac''\<rparr>"
  have h: "\<forall>rc \<in> set (rakecycles ?wtt). \<forall>p. servicePath rc = Some p \<and> p \<noteq> [] \<longrightarrow>
             events (heap ?wtt (hd p)) \<noteq> [] \<and> events (heap ?wtt (last p)) \<noteq> []"
    by (simp add: stub_of_def RakeCycle_init_def Service_init_def)
  have v: "link_visible (heap ?wtt) ?qq
             ((stub_of ''A'' [IntId 93001])\<lparr>servicePath := Some [0], rake := Some (Rake_init 0)\<rparr>)"
    by (simp add: link_visible_def cycle_events_def event_in_window_def falsy_def ac_allows_def
        Service_init_def FilterQuery_default_def stub_of_def RakeCycle_init_def Rake_init_def
        upper_def upper_char_def strip_def py_isspace_def)
  have n: "\<not> link_visible (heap ?wtt) ?qq (stub_of ''B'' [IntId 93002])"
    by (simp add: link_visible_def stub_of_def RakeCycle_init_def)
  from apply_link_filters_visibility[OF h, of ?qq] obtain wtt' where
    "apply_link_filters ?wtt ?qq = Inr wtt'
       \<and> heap wtt' = heap ?wtt \<and> suburbanServices wtt' = suburbanServices ?wtt
       \<and> rakecycles wtt'
            = map (\<lambda>rc. rc\<lparr>render := link_visible (heap ?wtt) ?qq rc\<rparr>) (rakecycles ?wtt)" ..
  then have r: "apply_link_filters ?wtt ?qq = Inr wtt'"
    and m: "rakecycles wtt'
              = map (\<lambda>rc. rc\<lparr>render := link_visible (heap ?wtt) ?qq rc\<rparr>) (rakecycles ?wtt)"
    by simp_all
  from m v n have k: "map render (rakecycles wtt') = [True, False]" by simp
  show ?thesis by (rule exI[of _ wtt']) (rule conjI[OF r k])
qed

end
